theory Spec2Isabelle
  imports Main "HOL-Library.Word" "HOL-Library.Monad_Syntax"
begin

unbundle bit_operations_syntax

section \<open>Process model shared by all of \<^verbatim>\<open>utils.c\<close>\<close>

text \<open>
  \<^verbatim>\<open>utils.c\<close> talks to the C library and to the logger of the tool. Both are
  outside the file, so the model makes them explicit:
  \<^item> a computation that may end the process has type \<open>'a option\<close>: \<open>None\<close> is
    "the process was terminated", \<open>Some r\<close> is "the call returned \<open>r\<close>";
  \<^item> the outcomes of future allocations are a script in the process state, one entry
    consumed by every \<^verbatim>\<open>malloc\<close>, \<^verbatim>\<open>realloc\<close> and \<^verbatim>\<open>strdup\<close>;
  \<^item> a pointer is \<open>NULL\<close> or \<open>Ptr b\<close> with \<open>b\<close> the block it points to; a block
    is a list of slots, and a slot is \<open>None\<close> while its content is indeterminate.
\<close>

type_synonym u1 = "8 word"

datatype log_level = l_FATAL | l_ERROR | l_WARN | l_INFO | l_DEBUG

datatype 'a ptr = NULL | Ptr 'a

type_synonym 'a block = "'a option list"

text \<open>The part of the process every function here may touch: the allocation script and the log.\<close>

record proc =
  heap_script :: "bool list"
  logged :: "(log_level \<times> string) list"

text \<open>A message of some level, appended to the log.\<close>

definition logs :: "log_level \<Rightarrow> string \<Rightarrow> ('a proc_scheme) \<Rightarrow> ('a proc_scheme)" where
  "logs lvl msg s = s\<lparr>logged := logged s @ [(lvl, msg)]\<rparr>"

text \<open>
  Modelled from the spec: the logging macros \<^verbatim>\<open>LOGMSG\<close>, \<^verbatim>\<open>LOGMSG_P\<close> and
  \<^verbatim>\<open>LOGMSG_RAW\<close> (\<^verbatim>\<open>log.h\<close> is missing). The spec's policy for the fatal level is
  "log and terminate the process immediately"; every other level appends the message
  and returns. The code has the same expectation: "This is expected to abort", next to
  the two calls at the fatal level.
\<close>

definition LOGMSG :: "log_level \<Rightarrow> string \<Rightarrow> ('a proc_scheme) \<Rightarrow> ('a proc_scheme) option" where
  "LOGMSG lvl msg s = (if lvl = l_FATAL then None else Some (logs lvl msg s))"

subsection \<open>Formatted text\<close>

text \<open>
  The conversions of \<^verbatim>\<open>printf\<close> that the messages use: \<^verbatim>\<open>%04x\<close> and \<^verbatim>\<open>%02x\<close> print
  in lower-case hexadecimal and fill with zeros up to a width of four and of two,
  \<^verbatim>\<open>%i\<close> prints a signed decimal number, \<^verbatim>\<open>%u\<close> and \<^verbatim>\<open>%zu\<close> an unsigned one, and
  \<^verbatim>\<open>'%s'\<close> a string between apostrophes.
\<close>

definition hex_digit :: "nat \<Rightarrow> char" where
  "hex_digit d = ''0123456789abcdef'' ! d"

fun hex_of_nat :: "nat \<Rightarrow> string" where
  "hex_of_nat n = (if n < 16 then [hex_digit n] else hex_of_nat (n div 16) @ [hex_digit (n mod 16)])"

fun dec_of_nat :: "nat \<Rightarrow> string" where
  "dec_of_nat n = (if n < 10 then [hex_digit n] else dec_of_nat (n div 10) @ [hex_digit (n mod 10)])"

declare hex_of_nat.simps [simp del] dec_of_nat.simps [simp del]

definition zero_padded :: "nat \<Rightarrow> string \<Rightarrow> string" where
  "zero_padded width str = replicate (width - length str) CHR ''0'' @ str"

definition fmt_04x :: "nat \<Rightarrow> string" where
  "fmt_04x n = zero_padded 4 (hex_of_nat n)"

definition fmt_02x :: "u1 \<Rightarrow> string" where
  "fmt_02x b = zero_padded 2 (hex_of_nat (unat b))"

definition fmt_i :: "int \<Rightarrow> string" where
  "fmt_i i = (if i < 0 then ''-'' @ dec_of_nat (nat (- i)) else dec_of_nat (nat i))"

definition quoted :: "string \<Rightarrow> string" where
  "quoted str = [CHR 0x27] @ str @ [CHR 0x27]"

subsection \<open>The C library's allocator\<close>

text \<open>
  One entry of the script decides one allocation (\<open>True\<close>: it succeeds); an exhausted
  script means that memory is plentiful.
\<close>

definition next_ok :: "bool list \<Rightarrow> bool" where
  "next_ok script = (case script of [] \<Rightarrow> True | ok # rest \<Rightarrow> ok)"

definition next_alloc :: "('a proc_scheme) \<Rightarrow> bool \<times> ('a proc_scheme)" where
  "next_alloc s = (next_ok (heap_script s), s\<lparr>heap_script := tl (heap_script s)\<rparr>)"

definition never_fails :: "bool list \<Rightarrow> bool" where
  "never_fails script = list_all (\<lambda>ok. ok) script"

definition malloc :: "nat \<Rightarrow> ('a proc_scheme) \<Rightarrow> 'b block ptr \<times> ('a proc_scheme)" where
  "malloc sz s =
     (let (ok, s') = next_alloc s
      in (if ok then Ptr (replicate sz None) else NULL, s'))"

text \<open>
  \<^verbatim>\<open>realloc(p, sz)\<close>: a new block of \<open>sz\<close> slots that keeps the common prefix; with
  a null \<open>p\<close> it is \<^verbatim>\<open>malloc(sz)\<close>; on failure it returns \<open>NULL\<close> and leaves the old
  block alone.
\<close>

definition resized :: "'b block ptr \<Rightarrow> nat \<Rightarrow> 'b block" where
  "resized p sz =
     (case p of
        NULL \<Rightarrow> replicate sz None
      | Ptr b \<Rightarrow> take sz b @ replicate (sz - length b) None)"

definition realloc :: "'b block ptr \<Rightarrow> nat \<Rightarrow> ('a proc_scheme) \<Rightarrow> 'b block ptr \<times> ('a proc_scheme)" where
  "realloc p sz s =
     (let (ok, s') = next_alloc s
      in (if ok then Ptr (resized p sz) else NULL, s'))"

definition strdup :: "string \<Rightarrow> ('a proc_scheme) \<Rightarrow> string ptr \<times> ('a proc_scheme)" where
  "strdup str s =
     (let (ok, s') = next_alloc s
      in (if ok then Ptr str else NULL, s'))"

text \<open>\<^verbatim>\<open>memset(p, c, n)\<close> on a block; writing through a null pointer is undefined in C and leaves \<open>NULL\<close> here.\<close>

definition memset :: "'b block ptr \<Rightarrow> 'b \<Rightarrow> nat \<Rightarrow> 'b block ptr" where
  "memset p c n =
     (case p of
        NULL \<Rightarrow> NULL
      | Ptr b \<Rightarrow> Ptr (replicate (min n (length b)) (Some c) @ drop n b))"

section \<open>Allocator: \<^verbatim>\<open>utils_malloc\<close>, \<^verbatim>\<open>utils_calloc\<close>, \<^verbatim>\<open>utils_realloc\<close>\<close>

definition utils_malloc :: "nat \<Rightarrow> ('a proc_scheme) \<Rightarrow> ('b block ptr \<times> ('a proc_scheme)) option" where
  "utils_malloc sz s =
     (let (p, s1) = malloc sz s
      in if p = NULL
         then do { s2 \<leftarrow> LOGMSG l_FATAL (''malloc(size='' @ quoted (dec_of_nat sz) @ '')'') s1; Some (p, s2) }
         else Some (p, s1))"

definition utils_calloc :: "nat \<Rightarrow> ('a proc_scheme) \<Rightarrow> (u1 block ptr \<times> ('a proc_scheme)) option" where
  "utils_calloc sz s =
     do { (p, s1) \<leftarrow> utils_malloc sz s;
          Some (memset p 0 sz, s1) }"

text \<open>
  In \<^verbatim>\<open>utils_realloc\<close> the statement \<^verbatim>\<open>free(ptr)\<close> follows the fatal log; it changes
  nothing that the caller is given.
\<close>

definition utils_realloc :: "'b block ptr \<Rightarrow> nat \<Rightarrow> ('a proc_scheme) \<Rightarrow> ('b block ptr \<times> ('a proc_scheme)) option" where
  "utils_realloc p sz s =
     (let (ret, s1) = realloc p sz s
      in if ret = NULL
         then do { s2 \<leftarrow> LOGMSG l_FATAL ''realloc(%p, %zu)'' s1; Some (ret, s2) }
         else Some (ret, s1))"

section \<open>RawIO: \<^verbatim>\<open>utils_writeToFd\<close>\<close>

text \<open>
  The kernel's side of \<^verbatim>\<open>write(2)\<close>. The state keeps, for every descriptor, the bytes
  written to it so far, and \<^verbatim>\<open>errno\<close>. One call is answered by one event: the kernel
  takes at most \<open>k\<close> of the bytes offered and returns how many it took, or it fails with
  an error number and returns \<open>-1\<close>.
\<close>

datatype write_ev = Accepts nat | Fails int

record io =
  fd_out :: "int \<Rightarrow> u1 list"
  errno :: int

definition EINTR :: int where
  "EINTR = 4"

fun write_call :: "write_ev \<Rightarrow> int \<Rightarrow> u1 list \<Rightarrow> int \<Rightarrow> io \<Rightarrow> int \<times> io" where
  "write_call (Accepts k) fd bytes count st =
     (let n = min k (nat count)
      in (int n,
          st\<lparr>fd_out := (fd_out st)(fd := fd_out st fd @ take n bytes)\<rparr>))"
| "write_call (Fails e) fd bytes count st = (-1, st\<lparr>errno := e\<rparr>)"

text \<open>
  The loop of \<^verbatim>\<open>utils_writeToFd\<close> has no bound of its own: it runs for as long as the
  kernel answers with \<^verbatim>\<open>EINTR\<close> or with short counts. The answers are a finite script;
  \<open>Running\<close> is the loop that has used the whole script and still has bytes to write.
\<close>

datatype 'a run = Running | Done 'a

function writeToFd_loop ::
  "write_ev list \<Rightarrow> int \<Rightarrow> u1 list \<Rightarrow> int \<Rightarrow> int \<Rightarrow> io \<Rightarrow> (bool \<times> io) run" where
  "writeToFd_loop evs fd buf fileSz written st =
     (if written < fileSz then
        (case evs of
           [] \<Rightarrow> Running
         | ev # rest \<Rightarrow>
             (let (sz, st') = write_call ev fd (drop (nat written) buf) (fileSz - written) st
              in if sz < 0 \<and> errno st' = EINTR then writeToFd_loop rest fd buf fileSz written st'
                 else if sz < 0 then Done (False, st')
                 else writeToFd_loop rest fd buf fileSz (written + sz) st'))
      else Done (True, st))"
  by pat_completeness auto
termination
  by (relation "measure (\<lambda>(evs, fd, buf, fileSz, written, st). length evs)") auto

declare writeToFd_loop.simps [simp del]

definition utils_writeToFd :: "write_ev list \<Rightarrow> int \<Rightarrow> u1 list \<Rightarrow> int \<Rightarrow> io \<Rightarrow> (bool \<times> io) run" where
  "utils_writeToFd evs fd buf fileSz st = writeToFd_loop evs fd buf fileSz 0 st"

text \<open>What a caller can observe of a run: the result and the bytes on the descriptors (not \<^verbatim>\<open>errno\<close>).\<close>

fun observe :: "(bool \<times> io) run \<Rightarrow> (bool \<times> (int \<Rightarrow> u1 list)) run" where
  "observe Running = Running"
| "observe (Done (ok, st)) = Done (ok, fd_out st)"

definition not_EINTR :: "write_ev \<Rightarrow> bool" where
  "not_EINTR ev = (ev \<noteq> Fails EINTR)"

section \<open>RawIO: \<^verbatim>\<open>utils_mapFileToRead\<close>\<close>

text \<open>
  What the kernel answers for the file at hand: the return value of \<^verbatim>\<open>open\<close> (a
  descriptor, or \<open>-1\<close>), the return value of \<^verbatim>\<open>fstat\<close> with the size it reports, and
  the address \<^verbatim>\<open>mmap\<close> returns (\<^verbatim>\<open>MAP_FAILED\<close>, which is \<^verbatim>\<open>(void *) -1\<close>, when it
  fails). The process keeps the set of its open descriptors.
\<close>

type_synonym addr = "64 word"

definition NULL_addr :: addr where
  "NULL_addr = 0"

definition MAP_FAILED :: addr where
  "MAP_FAILED = - 1"

record kernel_file =
  open_ret :: int
  fstat_ret :: int
  st_size :: int
  mmap_ret :: addr

record map_proc = proc +
  open_fds :: "int set"

definition open_call :: "kernel_file \<Rightarrow> string \<Rightarrow> map_proc \<Rightarrow> int \<times> map_proc" where
  "open_call k fileName s =
     (open_ret k, if open_ret k = - 1 then s else s\<lparr>open_fds := insert (open_ret k) (open_fds s)\<rparr>)"

definition close_call :: "int \<Rightarrow> map_proc \<Rightarrow> map_proc" where
  "close_call fd s = s\<lparr>open_fds := open_fds s - {fd}\<rparr>"

text \<open>
  The result is the returned pointer together with the final values of the two
  out-parameters \<^verbatim>\<open>*fileSz\<close> and \<^verbatim>\<open>*fd\<close> (the arguments are their values at entry).
\<close>

definition utils_mapFileToRead ::
  "kernel_file \<Rightarrow> string \<Rightarrow> int \<Rightarrow> int \<Rightarrow> map_proc \<Rightarrow> ((addr \<times> int \<times> int) \<times> map_proc) option" where
  "utils_mapFileToRead k fileName fileSz fd s =
     (let (fd1, s1) = open_call k fileName s
      in if fd1 = - 1 then
           do { s2 \<leftarrow> LOGMSG l_WARN (''Couldn't open() '' @ quoted fileName @ '' file in R/O mode'') s1;
                Some ((NULL_addr, fileSz, fd1), s2) }
         else if fstat_ret k = - 1 then
           do { s2 \<leftarrow> LOGMSG l_WARN (''Couldn't stat() the '' @ quoted fileName @ '' file'') s1;
                Some ((NULL_addr, fileSz, fd1), close_call fd1 s2) }
         else if mmap_ret k = MAP_FAILED then
           do { s2 \<leftarrow> LOGMSG l_WARN (''Couldn't mmap() the '' @ quoted fileName @ '' file'') s1;
                Some ((NULL_addr, fileSz, fd1), close_call fd1 s2) }
         else Some ((mmap_ret k, st_size k, fd1), s1))"

section \<open>FileCollector: \<^verbatim>\<open>utils_readdir\<close> and \<^verbatim>\<open>utils_init_files\<close>\<close>

text \<open>
  The file system as the walk sees it, that is, as the answers of \<^verbatim>\<open>stat\<close>,
  \<^verbatim>\<open>opendir\<close> and \<^verbatim>\<open>readdir\<close>. A node is what \<^verbatim>\<open>stat\<close> says about a path: it
  fails, or the path is a regular file of some size, a directory, or something else.
  A directory carries what \<^verbatim>\<open>opendir\<close> and the successive calls of \<^verbatim>\<open>readdir\<close>
  answer: \<open>None\<close> when it cannot be opened, and otherwise the list of answers, each an
  entry (its name, and the node \<^verbatim>\<open>stat\<close> finds under the joined path), an interrupted
  call, or an error; the end of the list is the null result with \<^verbatim>\<open>errno\<close> zero.
  The tree is finite: a cycle of symbolic links is not a value of this type.
\<close>

datatype 'e readdir_ans = Dirent 'e | ReaddirEINTR | ReaddirFails

datatype fnode =
    StatFails
  | S_IFREG nat
  | S_IFDIR "(string \<times> fnode) readdir_ans list option"
  | S_IFOTHER

type_synonym dirstream = "(string \<times> fnode) readdir_ans list"

text \<open>
  \<^verbatim>\<open>struct infiles_t\<close> of \<^verbatim>\<open>utils.h\<close> (the header is not among the sources; these
  are the fields \<^verbatim>\<open>utils.c\<close> uses), as part of the process that owns it. \<^verbatim>\<open>files\<close>
  is an array of \<^verbatim>\<open>char *\<close>. \<^verbatim>\<open>fileCnt\<close> is printed with \<^verbatim>\<open>%u\<close>; it is a \<open>nat\<close>
  here, no claim reaches \<open>2 ^ 32\<close> files.
\<close>

record infiles_t = proc +
  inputFile :: "string ptr"
  files :: "string ptr block ptr"
  fileCnt :: nat

text \<open>\<^verbatim>\<open>PATH_MAX\<close> of \<^verbatim>\<open>limits.h\<close> on Linux.\<close>

definition PATH_MAX :: nat where
  "PATH_MAX = 4096"

text \<open>
  \<^verbatim>\<open>snprintf(path, sizeof(path), "%s/%s", basePath, entry->d_name)\<close> with
  \<^verbatim>\<open>char path[PATH_MAX + 2]\<close>: the joined path, cut to leave room for the final zero.
\<close>

definition join_path :: "string \<Rightarrow> string \<Rightarrow> string" where
  "join_path basePath d_name = take (PATH_MAX + 1) (basePath @ ''/'' @ d_name)"

text \<open>
  \<^verbatim>\<open>p[i] = v\<close> on an array. The walk stores at an index it has just made room for; through
  a null pointer, or out of range, the store is undefined in C and does nothing here.
\<close>

definition store :: "'b block ptr \<Rightarrow> nat \<Rightarrow> 'b \<Rightarrow> 'b block ptr" where
  "store p i v = (case p of NULL \<Rightarrow> NULL | Ptr b \<Rightarrow> Ptr (b[i := Some v]))"

function (sequential) utils_readdir :: "dirstream option \<Rightarrow> string \<Rightarrow> infiles_t \<Rightarrow> (bool \<times> infiles_t) option"
  and readdir_loop :: "dirstream \<Rightarrow> string \<Rightarrow> infiles_t \<Rightarrow> (bool \<times> infiles_t) option"
where
  "utils_readdir None basePath s =
     do { s1 \<leftarrow> LOGMSG l_ERROR (''Couldn't open dir '' @ quoted basePath) s;
          Some (False, s1) }"
| "utils_readdir (Some dir) basePath s = readdir_loop dir basePath s"
| "readdir_loop [] basePath s = Some (True, s)"
| "readdir_loop (ReaddirEINTR # dir) basePath s = readdir_loop dir basePath s"
| "readdir_loop (ReaddirFails # dir) basePath s =
     do { s1 \<leftarrow> LOGMSG l_ERROR (''readdir('' @ quoted basePath @ '')'') s;
          Some (False, s1) }"
| "readdir_loop (Dirent (d_name, st) # dir) basePath s =
     (if d_name = ''.'' \<or> d_name = ''..'' then readdir_loop dir basePath s
      else
        let path = join_path basePath d_name
        in case st of
             StatFails \<Rightarrow>
               do { s1 \<leftarrow> LOGMSG l_WARN (''Couldn't stat() the '' @ quoted path @ '' file'') s;
                    readdir_loop dir basePath s1 }
           | S_IFDIR sub \<Rightarrow>
               do { (ok, s1) \<leftarrow> utils_readdir sub path s;
                    if \<not> ok then
                      do { s2 \<leftarrow> LOGMSG l_ERROR (''Failed to process '' @ quoted path @ '' directory'') s1;
                           readdir_loop dir basePath s2 }
                    else
                      do { s2 \<leftarrow> LOGMSG l_DEBUG (quoted path @ '' is not a regular file, skipping'') s1;
                           readdir_loop dir basePath s2 } }
           | S_IFOTHER \<Rightarrow>
               do { s1 \<leftarrow> LOGMSG l_DEBUG (quoted path @ '' is not a regular file, skipping'') s;
                    readdir_loop dir basePath s1 }
           | S_IFREG sz \<Rightarrow>
               if sz = 0 then
                 do { s1 \<leftarrow> LOGMSG l_DEBUG (quoted path @ '' is empty'') s;
                      readdir_loop dir basePath s1 }
               else
                 let (p, s1) = realloc (files s) (fileCnt s + 1) s;
                     s2 = s1\<lparr>files := p\<rparr>
                 in if p = NULL then
                      do { s3 \<leftarrow> LOGMSG l_ERROR ''Couldn't allocate memory'' s2;
                           Some (False, s3) }
                    else
                      let (q, s3) = strdup path s2;
                          s4 = s3\<lparr>files := store (files s3) (fileCnt s3) q\<rparr>
                      in if q = NULL then
                           do { s5 \<leftarrow> LOGMSG l_ERROR ''Couldn't allocate memory'' s4;
                                Some (False, s5) }
                         else
                           do { s5 \<leftarrow> LOGMSG l_DEBUG (''Added '' @ quoted path @ '' to the list of input files'')
                                       (s4\<lparr>fileCnt := fileCnt s4 + 1\<rparr>);
                                readdir_loop dir basePath s5 })"
  by pat_completeness auto
termination
  by (relation "measure (case_sum
        (\<lambda>(sub, basePath, s). size_option (size_list (size_readdir_ans (size_prod (\<lambda>_. 0) size))) sub)
        (\<lambda>(dir, basePath, s). size_list (size_readdir_ans (size_prod (\<lambda>_. 0) size)) dir))")
     auto

text \<open>
  \<^verbatim>\<open>utils_init_files\<close>; \<open>root\<close> is what \<^verbatim>\<open>stat\<close> answers for \<^verbatim>\<open>pFiles->inputFile\<close>.
\<close>

definition utils_init_files :: "fnode \<Rightarrow> infiles_t \<Rightarrow> (bool \<times> infiles_t) option" where
  "utils_init_files root s =
     (let (p, s1) = malloc 1 s;
          s2 = s1\<lparr>files := p\<rparr>
      in if p = NULL then
           do { s3 \<leftarrow> LOGMSG l_ERROR ''Couldn't allocate memory'' s2; Some (False, s3) }
         else
           case inputFile s2 of
             NULL \<Rightarrow>
               do { s3 \<leftarrow> LOGMSG l_ERROR ''No input file/dir specified'' s2; Some (False, s3) }
           | Ptr input \<Rightarrow>
               (case root of
                  StatFails \<Rightarrow>
                    do { s3 \<leftarrow> LOGMSG l_ERROR (''Couldn't stat the input file/dir '' @ quoted input) s2;
                         Some (False, s3) }
                | S_IFDIR sub \<Rightarrow>
                    do { (ok, s3) \<leftarrow> utils_readdir sub input s2;
                         if \<not> ok then
                           do { s4 \<leftarrow> LOGMSG l_ERROR (''Failed to recursively process '' @ quoted input @ '' directory'') s3;
                                Some (False, s4) }
                         else if fileCnt s3 = 0 then
                           do { s4 \<leftarrow> LOGMSG l_ERROR (''Directory '' @ quoted input @ '' doesn't contain any regular files'') s3;
                                Some (False, s4) }
                         else
                           do { s4 \<leftarrow> LOGMSG l_INFO (dec_of_nat (fileCnt s3) @ '' input files have been added to the list'') s3;
                                Some (True, s4) } }
                | S_IFOTHER \<Rightarrow>
                    do { s3 \<leftarrow> LOGMSG l_ERROR (quoted input @ '' is not a regular file, nor a directory'') s2;
                         Some (False, s3) }
                | S_IFREG sz \<Rightarrow>
                    Some (True, s2\<lparr>files := store (files s2) 0 (Ptr input), fileCnt := 1\<rparr>)))"

subsection \<open>What a tree holds\<close>

text \<open>
  The regular files of size greater than zero in a tree, as \<^verbatim>\<open>stat\<close> reports them
  during the enumeration. The entries \<^verbatim>\<open>.\<close> and \<^verbatim>\<open>..\<close> are the directory itself and its
  parent, not members of the tree.
\<close>

function (sequential) has_regular_file :: "fnode \<Rightarrow> bool"
  and stream_has_regular_file :: "dirstream \<Rightarrow> bool"
where
  "has_regular_file (S_IFREG sz) = (0 < sz)"
| "has_regular_file (S_IFDIR (Some dir)) = stream_has_regular_file dir"
| "has_regular_file st = False"
| "stream_has_regular_file [] = False"
| "stream_has_regular_file (Dirent (d_name, st) # dir) =
     ((d_name \<noteq> ''.'' \<and> d_name \<noteq> ''..'' \<and> has_regular_file st) \<or> stream_has_regular_file dir)"
| "stream_has_regular_file (ans # dir) = stream_has_regular_file dir"
  by pat_completeness auto
termination
  by (relation "measure (case_sum
        (\<lambda>st. size st)
        (\<lambda>dir. size_list (size_readdir_ans (size_prod (\<lambda>_. 0) size)) dir))")
     auto

text \<open>The paths of those files, built the way the walk joins them, in the order of the enumeration.\<close>

function (sequential) regular_paths :: "fnode \<Rightarrow> string \<Rightarrow> string list"
  and stream_regular_paths :: "dirstream \<Rightarrow> string \<Rightarrow> string list"
where
  "regular_paths (S_IFREG sz) path = (if 0 < sz then [path] else [])"
| "regular_paths (S_IFDIR (Some dir)) path = stream_regular_paths dir path"
| "regular_paths st path = []"
| "stream_regular_paths [] basePath = []"
| "stream_regular_paths (Dirent (d_name, st) # dir) basePath =
     (if d_name = ''.'' \<or> d_name = ''..'' then []
      else regular_paths st (join_path basePath d_name)) @ stream_regular_paths dir basePath"
| "stream_regular_paths (ans # dir) basePath = stream_regular_paths dir basePath"
  by pat_completeness auto
termination
  by (relation "measure (case_sum
        (\<lambda>(st, path). size st)
        (\<lambda>(dir, basePath). size_list (size_readdir_ans (size_prod (\<lambda>_. 0) size)) dir))")
     auto

text \<open>
  The invariant the data model states for a file set, for the tree that \<^verbatim>\<open>stat\<close> finds
  under the root path \<open>input\<close>: the array has \<^verbatim>\<open>fileCnt\<close> slots, and every slot holds the
  path of a regular file that had a size greater than zero when the enumeration looked
  at it.
\<close>

definition fileset_invariant :: "fnode \<Rightarrow> string \<Rightarrow> infiles_t \<Rightarrow> bool" where
  "fileset_invariant root input s =
     (case files s of
        NULL \<Rightarrow> False
      | Ptr b \<Rightarrow>
          length b = fileCnt s \<and>
          list_all (\<lambda>slot. \<exists>path \<in> set (regular_paths root input). slot = Some (Ptr path)) b)"

text \<open>
  The file set while the walk is at work, with \<open>G\<close> the paths it may hold: the first
  \<^verbatim>\<open>fileCnt\<close> slots of the array hold paths of \<open>G\<close>, and once a path has been appended
  the array has exactly \<^verbatim>\<open>fileCnt\<close> slots (before that it has the one slot that
  \<^verbatim>\<open>utils_init_files\<close> allocates).
\<close>

definition fileset_so_far :: "string set \<Rightarrow> infiles_t \<Rightarrow> bool" where
  "fileset_so_far G s =
     (case files s of
        NULL \<Rightarrow> False
      | Ptr b \<Rightarrow>
          fileCnt s \<le> length b \<and> (0 < fileCnt s \<longrightarrow> length b = fileCnt s) \<and>
          (\<forall>i < fileCnt s. \<exists>path \<in> G. b ! i = Some (Ptr path)))"

text \<open>What the caller of the walk finds afterwards: the result, the array and the count.\<close>

definition collected :: "(bool \<times> infiles_t) option \<Rightarrow> (bool \<times> string ptr block ptr \<times> nat) option" where
  "collected r = map_option (\<lambda>(ok, s). (ok, files s, fileCnt s)) r"

section \<open>Diagnostics: \<^verbatim>\<open>utils_hexDump\<close>\<close>

definition newline :: char where
  "newline = CHR 0x0A"

text \<open>A zero-terminated string in a \<^verbatim>\<open>char\<close> array, as \<^verbatim>\<open>%s\<close> reads it.\<close>

definition c_string :: "string \<Rightarrow> string" where
  "c_string buff = takeWhile (\<lambda>c. c \<noteq> CHR 0x00) buff"

text \<open>
  The body of the \<^verbatim>\<open>for\<close> loop, for the byte at index \<open>i\<close>. The state is the array
  \<^verbatim>\<open>buff\<close> and the text given to \<^verbatim>\<open>LOGMSG_RAW\<close> at the debug level so far (that level
  never ends the process). \<open>pc\<close> is the memory behind \<^verbatim>\<open>addr\<close>, by offset.
\<close>

definition hexDump_byte :: "(nat \<Rightarrow> u1) \<Rightarrow> nat \<Rightarrow> string \<times> string \<Rightarrow> string \<times> string" where
  "hexDump_byte pc i st =
     (let (buff, out) = st;
          out1 = (if i mod 16 = 0 then
                    (if i \<noteq> 0 then out @ ''  '' @ c_string buff @ [newline] else out) @
                    ''  '' @ fmt_04x i @ '' ''
                  else out);
          out2 = out1 @ '' '' @ fmt_02x (pc i);
          buff1 = (if pc i < 0x20 \<or> pc i > 0x7e then buff[i mod 16 := CHR ''.'']
                   else buff[i mod 16 := char_of (unat (pc i))]);
          buff2 = buff1[i mod 16 + 1 := CHR 0x00]
      in (buff2, out2))"

text \<open>\<^verbatim>\<open>while ((i % 16) != 0) { LOGMSG_RAW(l_DEBUG, "   "); i++; }\<close>\<close>

function hexDump_pad :: "nat \<Rightarrow> string \<Rightarrow> string" where
  "hexDump_pad i out = (if i mod 16 \<noteq> 0 then hexDump_pad (i + 1) (out @ ''   '') else out)"
  by pat_completeness auto
termination
  by (relation "measure (\<lambda>(i, out). (16 - i mod 16) mod 16)") (auto simp: mod_Suc)

declare hexDump_pad.simps [simp del]

text \<open>
  \<^verbatim>\<open>utils_hexDump(desc, addr, len)\<close>; the result is the text written to the debug log.
  \<open>buff0\<close> is what the array \<^verbatim>\<open>buff\<close> of seventeen characters holds at entry (it is not
  initialised). The \<^verbatim>\<open>for\<close> loop runs the body for \<open>i = 0, \<dots>, len - 1\<close>.
\<close>

definition utils_hexDump :: "string ptr \<Rightarrow> (nat \<Rightarrow> u1) \<Rightarrow> int \<Rightarrow> string \<Rightarrow> string" where
  "utils_hexDump desc pc len buff0 =
     (let out0 = (case desc of NULL \<Rightarrow> [] | Ptr d \<Rightarrow> d @ '':'' @ [newline])
      in if len = 0 then out0 @ ''  ZERO LENGTH'' @ [newline]
         else if len < 0 then out0 @ ''  NEGATIVE LENGTH: '' @ fmt_i len @ [newline]
         else
           let (buff, out) = foldl (\<lambda>st i. hexDump_byte pc i st) (buff0, out0) [0..<nat len];
               out1 = hexDump_pad (nat len) out
           in out1 @ ''  '' @ c_string buff @ [newline])"

subsection \<open>The layout of a dump\<close>

text \<open>
  The rows a dump of \<open>len\<close> bytes is made of, in words of the description: row \<open>r\<close>
  covers the bytes from offset \<open>16 * r\<close> on, sixteen of them or what is left; it shows
  the offset of its first byte, the bytes in hexadecimal, blanks in place of the bytes
  that a short last row lacks, and the gutter, where a byte below \<open>0x20\<close> or above
  \<open>0x7e\<close> is a dot.
\<close>

definition gutter_char :: "u1 \<Rightarrow> char" where
  "gutter_char b = (if b < 0x20 \<or> 0x7e < b then CHR ''.'' else char_of (unat b))"

definition row_bytes :: "(nat \<Rightarrow> u1) \<Rightarrow> nat \<Rightarrow> nat \<Rightarrow> u1 list" where
  "row_bytes pc len r = map pc [16 * r ..< min (16 * r + 16) len]"

definition row_hex :: "(nat \<Rightarrow> u1) \<Rightarrow> nat \<Rightarrow> nat \<Rightarrow> string" where
  "row_hex pc len r =
     ''  '' @ fmt_04x (16 * r) @ '' '' @
     concat (map (\<lambda>b. '' '' @ fmt_02x b) (row_bytes pc len r))"

definition dump_row :: "(nat \<Rightarrow> u1) \<Rightarrow> nat \<Rightarrow> nat \<Rightarrow> string" where
  "dump_row pc len r =
     row_hex pc len r @
     concat (replicate (16 - length (row_bytes pc len r)) ''   '') @
     ''  '' @ map gutter_char (row_bytes pc len r) @ [newline]"

definition dump_rows :: "(nat \<Rightarrow> u1) \<Rightarrow> nat \<Rightarrow> string list" where
  "dump_rows pc len = map (dump_row pc len) [0 ..< (len + 15) div 16]"

definition label :: "string ptr \<Rightarrow> string" where
  "label desc = (case desc of NULL \<Rightarrow> [] | Ptr d \<Rightarrow> d @ '':'' @ [newline])"

text \<open>Reading a hexadecimal numeral back, to say which number a label shows.\<close>

definition hex_digit_value :: "char \<Rightarrow> nat" where
  "hex_digit_value c = length (takeWhile (\<lambda>d. d \<noteq> c) ''0123456789abcdef'')"

definition hex_value :: "string \<Rightarrow> nat" where
  "hex_value str = foldl (\<lambda>v c. 16 * v + hex_digit_value c) 0 str"

text \<open>Memory that reads as zero at every offset.\<close>

definition zero_page :: "nat \<Rightarrow> u1" where
  "zero_page i = 0"

section \<open>Properties of the allocator\<close>

lemma LOGMSG_fatal: "LOGMSG l_FATAL msg s = None"
  by (simp add: LOGMSG_def)

lemma utils_malloc_not_null:
  "(utils_malloc sz s :: ('b block ptr \<times> 'a proc_scheme) option) \<noteq> Some (NULL, s')"
proof (cases "malloc sz s :: 'b block ptr \<times> 'a proc_scheme")
  case (Pair p s1)
  then show ?thesis
    by (cases p) (simp_all add: utils_malloc_def LOGMSG_fatal)
qed

lemma memset_eq_NULL: "memset p c n = NULL \<longleftrightarrow> p = NULL"
  by (cases p) (simp_all add: memset_def)

text \<open>What the three functions return, by the outcome of the allocation underneath.\<close>

lemma utils_malloc_eq:
  "utils_malloc sz s =
     (if next_ok (heap_script s)
      then Some (Ptr (replicate sz None), s\<lparr>heap_script := tl (heap_script s)\<rparr>)
      else None)"
  by (simp add: utils_malloc_def malloc_def next_alloc_def LOGMSG_fatal)

lemma utils_calloc_eq:
  "utils_calloc sz s =
     (if next_ok (heap_script s)
      then Some (Ptr (replicate sz (Some 0)), s\<lparr>heap_script := tl (heap_script s)\<rparr>)
      else None)"
  by (simp add: utils_calloc_def utils_malloc_eq memset_def)

lemma utils_realloc_eq:
  "utils_realloc p sz s =
     (if next_ok (heap_script s)
      then Some (Ptr (resized p sz), s\<lparr>heap_script := tl (heap_script s)\<rparr>)
      else None)"
  by (simp add: utils_realloc_def realloc_def next_alloc_def LOGMSG_fatal)

text \<open>
  C9. \<^verbatim>\<open>utils_malloc\<close>, \<^verbatim>\<open>utils_calloc\<close> and \<^verbatim>\<open>utils_realloc\<close> never hand a null
  pointer to their caller: with a fatal log that terminates the process, a call either
  ends the process or returns a pointer to a block.
\<close>

theorem allocator_never_returns_null:
  "(utils_malloc sz s :: ('b block ptr \<times> 'a proc_scheme) option) \<noteq> Some (NULL, s') \<and>
   utils_calloc sz s \<noteq> Some (NULL, s') \<and>
   (utils_realloc p sz s :: ('b block ptr \<times> 'a proc_scheme) option) \<noteq> Some (NULL, s')"
proof (intro conjI)
  show "(utils_malloc sz s :: ('b block ptr \<times> 'a proc_scheme) option) \<noteq> Some (NULL, s')"
    by (rule utils_malloc_not_null)
  show "utils_calloc sz s \<noteq> Some (NULL, s')"
  proof
    assume "utils_calloc sz s = Some (NULL, s')"
    then obtain q where "(utils_malloc sz s :: (u1 block ptr \<times> 'a proc_scheme) option) = Some (q, s')"
      and "memset q 0 sz = NULL"
      by (auto simp: utils_calloc_def bind_eq_Some_conv)
    then show False
      using utils_malloc_not_null [of sz s s', where ?'b = u1]
      by (simp add: memset_eq_NULL)
  qed
  show "(utils_realloc p sz s :: ('b block ptr \<times> 'a proc_scheme) option) \<noteq> Some (NULL, s')"
  proof (cases "realloc p sz s :: 'b block ptr \<times> 'a proc_scheme")
    case (Pair r s1)
    then show ?thesis
      by (cases r) (simp_all add: utils_realloc_def LOGMSG_fatal)
  qed
qed

section \<open>Properties of \<^verbatim>\<open>utils_writeToFd\<close>\<close>

text \<open>One turn of the loop, for each answer the kernel can give.\<close>


lemma loop_done: "\<not> written < fileSz \<Longrightarrow> writeToFd_loop evs fd buf fileSz written st = Done (True, st)"
  by (simp add: writeToFd_loop.simps)

lemma loop_Nil: "written < fileSz \<Longrightarrow> writeToFd_loop [] fd buf fileSz written st = Running"
  by (simp add: writeToFd_loop.simps)

lemma loop_Accepts:
  "written < fileSz \<Longrightarrow>
   writeToFd_loop (Accepts k # evs) fd buf fileSz written st =
   writeToFd_loop evs fd buf fileSz (written + int (min k (nat (fileSz - written))))
     (st\<lparr>fd_out := (fd_out st)(fd := fd_out st fd @ take (min k (nat (fileSz - written))) (drop (nat written) buf))\<rparr>)"
  by (subst writeToFd_loop.simps) (simp add: Let_def)

lemma loop_EINTR:
  "written < fileSz \<Longrightarrow>
   writeToFd_loop (Fails EINTR # evs) fd buf fileSz written st =
   writeToFd_loop evs fd buf fileSz written (st\<lparr>errno := EINTR\<rparr>)"
  by (subst writeToFd_loop.simps) simp

lemma loop_Fails:
  "written < fileSz \<Longrightarrow> e \<noteq> EINTR \<Longrightarrow>
   writeToFd_loop (Fails e # evs) fd buf fileSz written st = Done (False, st\<lparr>errno := e\<rparr>)"
  by (subst writeToFd_loop.simps) simp

lemma take_drop_chunks:
  "take m (drop w xs) @ take r (drop (w + m) xs) = take (m + r) (drop w xs)"
  by (simp add: take_add add.commute)

lemma loop_success:
  "writeToFd_loop evs fd buf fileSz written st = Done (True, st') \<Longrightarrow> 0 \<le> written \<Longrightarrow>
   written \<le> fileSz \<Longrightarrow>
   fd_out st' = (fd_out st)(fd := fd_out st fd @ take (nat (fileSz - written)) (drop (nat written) buf))"
proof (induction evs arbitrary: written st)
  case Nil
  then show ?case by (cases "written < fileSz") (auto simp: loop_Nil loop_done)
next
  case (Cons ev evs)
  show ?case
  proof (cases "written < fileSz")
    case False
    with Cons.prems show ?thesis by (auto simp: loop_done)
  next
    case lt: True
    show ?thesis
    proof (cases ev)
      case (Accepts k)
      define m where "m = min k (nat (fileSz - written))"
      have m: "int m \<le> fileSz - written" using lt unfolding m_def by linarith
      from Cons.prems(1) lt Accepts
      have "writeToFd_loop evs fd buf fileSz (written + int m)
         (st\<lparr>fd_out := (fd_out st)(fd := fd_out st fd @ take m (drop (nat written) buf))\<rparr>) = Done (True, st')"
        by (simp add: loop_Accepts m_def)
      from Cons.IH [OF this] Cons.prems(2) m
      have "fd_out st' = (fd_out st)(fd := (fd_out st fd @ take m (drop (nat written) buf)) @
               take (nat (fileSz - (written + int m))) (drop (nat (written + int m)) buf))"
        by (auto simp: fun_eq_iff)
      moreover have "nat (written + int m) = nat written + m"
        using Cons.prems(2) by (simp add: nat_add_distrib)
      moreover have "nat (fileSz - written) = m + nat (fileSz - (written + int m))"
        using m by simp
      ultimately show ?thesis
        by (simp only: append_assoc take_drop_chunks)
    next
      case (Fails e)
      show ?thesis
      proof (cases "e = EINTR")
        case True
        with Cons.prems(1) lt Fails
        have "writeToFd_loop evs fd buf fileSz written (st\<lparr>errno := EINTR\<rparr>) = Done (True, st')"
          by (simp add: loop_EINTR)
        from Cons.IH [OF this] Cons.prems(2,3) show ?thesis by simp
      next
        case False
        with Cons.prems(1) lt Fails show ?thesis by (simp add: loop_Fails)
      qed
    qed
  qed
qed

lemma observe_cong_state:
  "fd_out st1 = fd_out st2 \<Longrightarrow>
   observe (writeToFd_loop evs fd buf fileSz written st1) = observe (writeToFd_loop evs fd buf fileSz written st2)"
proof (induction evs arbitrary: written st1 st2)
  case Nil
  then show ?case by (cases "written < fileSz") (auto simp: loop_Nil loop_done)
next
  case (Cons ev evs)
  show ?case
  proof (cases "written < fileSz")
    case False
    with Cons.prems show ?thesis by (auto simp: loop_done)
  next
    case lt: True
    show ?thesis
    proof (cases ev)
      case (Accepts k)
      show ?thesis unfolding Accepts loop_Accepts [OF lt]
        by (rule Cons.IH) (simp add: Cons.prems)
    next
      case (Fails e)
      show ?thesis
      proof (cases "e = EINTR")
        case True
        show ?thesis unfolding Fails True loop_EINTR [OF lt]
          by (rule Cons.IH) (simp add: Cons.prems)
      next
        case False
        then show ?thesis unfolding Fails by (simp add: loop_Fails lt Cons.prems)
      qed
    qed
  qed
qed

lemma not_EINTR_simps [simp]:
  "not_EINTR (Accepts k)" "not_EINTR (Fails e) \<longleftrightarrow> e \<noteq> EINTR"
  by (simp_all add: not_EINTR_def)

lemma loop_filter_EINTR:
  "observe (writeToFd_loop (filter not_EINTR evs) fd buf fileSz written st) =
   observe (writeToFd_loop evs fd buf fileSz written st)"
proof (induction evs arbitrary: written st)
  case Nil
  show ?case by simp
next
  case (Cons ev evs)
  show ?case
  proof (cases "written < fileSz")
    case False
    then show ?thesis by (auto simp: loop_done)
  next
    case lt: True
    show ?thesis
    proof (cases ev)
      case (Accepts k)
      then show ?thesis by (simp add: loop_Accepts lt Cons.IH)
    next
      case (Fails e)
      show ?thesis
      proof (cases "e = EINTR")
        case True
        have "observe (writeToFd_loop (filter not_EINTR evs) fd buf fileSz written st) =
              observe (writeToFd_loop evs fd buf fileSz written st)" by (rule Cons.IH)
        also have "\<dots> = observe (writeToFd_loop evs fd buf fileSz written (st\<lparr>errno := EINTR\<rparr>))"
          by (rule observe_cong_state) simp
        finally show ?thesis by (simp add: Fails True loop_EINTR lt)
      next
        case False
        then show ?thesis by (simp add: Fails loop_Fails lt)
      qed
    qed
  qed
qed

text \<open>
  C5. For a non-negative length and a buffer that holds that many bytes,
  \<^verbatim>\<open>utils_writeToFd\<close>
  \<^item> returns success only when the descriptor has received exactly the first
    \<open>fileSz\<close> bytes of the buffer, and nothing else changed;
  \<^item> retries on \<^verbatim>\<open>EINTR\<close> transparently: the answers \<^verbatim>\<open>EINTR\<close> can be removed from
    the kernel's script without changing the result or the bytes written;
  \<^item> loops over partial writes: after a short count the loop goes on behind the bytes
    that were taken;
  \<^item> returns \<open>False\<close> to its caller, as an ordinary result, when a write fails with
    any other error.
\<close>

theorem utils_writeToFd_contract:
  assumes "0 \<le> fileSz" and "nat fileSz \<le> length buf"
  shows "(\<forall>st'. utils_writeToFd evs fd buf fileSz st = Done (True, st') \<longrightarrow>
            fd_out st' = (fd_out st)(fd := fd_out st fd @ take (nat fileSz) buf) \<and>
            int (length (take (nat fileSz) buf)) = fileSz) \<and>
         observe (utils_writeToFd (filter not_EINTR evs) fd buf fileSz st) =
           observe (utils_writeToFd evs fd buf fileSz st) \<and>
         (\<forall>written k. written < fileSz \<longrightarrow>
            writeToFd_loop (Accepts k # evs) fd buf fileSz written st =
            writeToFd_loop evs fd buf fileSz (written + int (min k (nat (fileSz - written))))
              (st\<lparr>fd_out := (fd_out st)(fd := fd_out st fd @
                   take (min k (nat (fileSz - written))) (drop (nat written) buf))\<rparr>)) \<and>
         (\<forall>written. written < fileSz \<longrightarrow>
            writeToFd_loop (Fails EINTR # evs) fd buf fileSz written st =
            writeToFd_loop evs fd buf fileSz written (st\<lparr>errno := EINTR\<rparr>)) \<and>
         (\<forall>written e. written < fileSz \<and> e \<noteq> EINTR \<longrightarrow>
            writeToFd_loop (Fails e # evs) fd buf fileSz written st =
            Done (False, st\<lparr>errno := e\<rparr>))"
proof (intro conjI allI impI)
  fix st'
  assume run: "utils_writeToFd evs fd buf fileSz st = Done (True, st')"
  from run assms(1) show "fd_out st' = (fd_out st)(fd := fd_out st fd @ take (nat fileSz) buf)"
    using loop_success [of evs fd buf fileSz 0 st st'] by (simp add: utils_writeToFd_def)
  from assms show "int (length (take (nat fileSz) buf)) = fileSz"
    by simp
next
  show "observe (utils_writeToFd (filter not_EINTR evs) fd buf fileSz st) =
        observe (utils_writeToFd evs fd buf fileSz st)"
    unfolding utils_writeToFd_def by (rule loop_filter_EINTR)
qed (simp_all add: loop_Accepts loop_EINTR loop_Fails)

theorem utils_writeToFd_contract_witness:
  "(0::int) \<le> 5 \<and> nat 5 \<le> length [1, 2, 3, 4, 5 :: u1] \<and>
   utils_writeToFd [Accepts 2, Fails EINTR, Accepts 1, Accepts 9] 3 [1, 2, 3, 4, 5] 5
       \<lparr>fd_out = (\<lambda>_. []), errno = 0\<rparr> =
     Done (True, \<lparr>fd_out = (\<lambda>_. [])(3 := [1, 2, 3, 4, 5]), errno = EINTR\<rparr>) \<and>
   fd_out \<lparr>fd_out = (\<lambda>_. [])(3 := [1, 2, 3, 4, 5 :: u1]), errno = EINTR\<rparr> =
     (\<lambda>_. [])(3 := [] @ take (nat 5) [1, 2, 3, 4, 5]) \<and>
   utils_writeToFd [Accepts 2, Fails 5, Accepts 9] 3 [1, 2, 3, 4, 5] 5
       \<lparr>fd_out = (\<lambda>_. []), errno = 0\<rparr> =
     Done (False, \<lparr>fd_out = (\<lambda>_. [])(3 := [1, 2]), errno = 5\<rparr>)"
proof -
  have len: "(0::int) \<le> 5" "nat 5 \<le> length [1, 2, 3, 4, 5 :: u1]"
    by simp_all
  have run: "utils_writeToFd [Accepts 2, Fails EINTR, Accepts 1, Accepts 9] 3 [1, 2, 3, 4, 5] 5
       \<lparr>fd_out = (\<lambda>_. []), errno = 0\<rparr> =
     Done (True, \<lparr>fd_out = (\<lambda>_. [])(3 := [1, 2, 3, 4, 5]), errno = EINTR\<rparr>)"
    by (simp add: utils_writeToFd_def loop_Accepts loop_EINTR loop_done)
  have fail: "utils_writeToFd [Accepts 2, Fails 5, Accepts 9] 3 [1, 2, 3, 4, 5] 5
       \<lparr>fd_out = (\<lambda>_. []), errno = 0\<rparr> =
     Done (False, \<lparr>fd_out = (\<lambda>_. [])(3 := [1, 2]), errno = 5\<rparr>)"
    by (simp add: utils_writeToFd_def loop_Accepts loop_Fails EINTR_def)
  from utils_writeToFd_contract [OF len, THEN conjunct1, rule_format, OF run] len run fail
  show ?thesis by simp
qed

text \<open>
  C10. With a length of zero or less \<^verbatim>\<open>utils_writeToFd\<close> returns success at once: the
  kernel is never asked (whatever its script, even none), no descriptor receives a byte
  and \<^verbatim>\<open>errno\<close> is untouched.
\<close>

theorem utils_writeToFd_nothing_to_write:
  "fileSz \<le> 0 \<Longrightarrow> utils_writeToFd evs fd buf fileSz st = Done (True, st)"
  by (simp add: utils_writeToFd_def loop_done)

theorem utils_writeToFd_nothing_to_write_witness:
  "(-1::int) \<le> 0 \<and>
   utils_writeToFd [Fails 5, Accepts 4] 3 [1, 2, 3] (-1) \<lparr>fd_out = (\<lambda>_. []), errno = 0\<rparr> =
     Done (True, \<lparr>fd_out = (\<lambda>_. []), errno = 0\<rparr>)"
  using utils_writeToFd_nothing_to_write [of "-1" "[Fails 5, Accepts 4]" 3 "[1, 2, 3]"
      "\<lparr>fd_out = (\<lambda>_. []), errno = 0\<rparr>"]
  by simp

section \<open>Properties of the directory walk\<close>

text \<open>One turn of the loop of \<^verbatim>\<open>utils_readdir\<close>, for each kind of entry.\<close>

lemma LOGMSG_nonfatal:
  "lvl \<noteq> l_FATAL \<Longrightarrow> LOGMSG lvl msg s = Some (logs lvl msg s)"
  by (simp add: LOGMSG_def)

lemma step_dots:
  "d_name = ''.'' \<or> d_name = ''..'' \<Longrightarrow>
   readdir_loop (Dirent (d_name, st) # dir) basePath s = readdir_loop dir basePath s"
  by auto

lemma step_StatFails:
  "\<not> (d_name = ''.'' \<or> d_name = ''..'') \<Longrightarrow>
   readdir_loop (Dirent (d_name, StatFails) # dir) basePath s =
   readdir_loop dir basePath
     (logs l_WARN (''Couldn't stat() the '' @ quoted (join_path basePath d_name) @ '' file'') s)"
  by (simp add: LOGMSG_nonfatal)

lemma step_S_IFOTHER:
  "\<not> (d_name = ''.'' \<or> d_name = ''..'') \<Longrightarrow>
   readdir_loop (Dirent (d_name, S_IFOTHER) # dir) basePath s =
   readdir_loop dir basePath
     (logs l_DEBUG (quoted (join_path basePath d_name) @ '' is not a regular file, skipping'') s)"
  by (simp add: LOGMSG_nonfatal)

lemma step_empty:
  "\<not> (d_name = ''.'' \<or> d_name = ''..'') \<Longrightarrow>
   readdir_loop (Dirent (d_name, S_IFREG 0) # dir) basePath s =
   readdir_loop dir basePath
     (logs l_DEBUG (quoted (join_path basePath d_name) @ '' is empty'') s)"
  by (simp add: LOGMSG_nonfatal)

lemma step_subdir_fails:
  "\<not> (d_name = ''.'' \<or> d_name = ''..'') \<Longrightarrow>
   utils_readdir sub (join_path basePath d_name) s = Some (False, s1) \<Longrightarrow>
   readdir_loop (Dirent (d_name, S_IFDIR sub) # dir) basePath s =
   readdir_loop dir basePath
     (logs l_ERROR (''Failed to process '' @ quoted (join_path basePath d_name) @ '' directory'') s1)"
  by (simp add: LOGMSG_nonfatal)

lemma step_subdir_ok:
  "\<not> (d_name = ''.'' \<or> d_name = ''..'') \<Longrightarrow>
   utils_readdir sub (join_path basePath d_name) s = Some (True, s1) \<Longrightarrow>
   readdir_loop (Dirent (d_name, S_IFDIR sub) # dir) basePath s =
   readdir_loop dir basePath
     (logs l_DEBUG (quoted (join_path basePath d_name) @ '' is not a regular file, skipping'') s1)"
  by (simp add: LOGMSG_nonfatal)

lemma step_realloc_fails:
  "\<not> (d_name = ''.'' \<or> d_name = ''..'') \<Longrightarrow> 0 < sz \<Longrightarrow>
   \<not> next_ok (heap_script s) \<Longrightarrow>
   readdir_loop (Dirent (d_name, S_IFREG sz) # dir) basePath s =
   Some (False, logs l_ERROR ''Couldn't allocate memory''
     (s\<lparr>heap_script := tl (heap_script s), files := NULL\<rparr>))"
  by (simp add: LOGMSG_nonfatal realloc_def next_alloc_def Let_def)

lemma step_strdup_fails:
  "\<not> (d_name = ''.'' \<or> d_name = ''..'') \<Longrightarrow> 0 < sz \<Longrightarrow>
   next_ok (heap_script s) \<Longrightarrow> \<not> next_ok (tl (heap_script s)) \<Longrightarrow>
   readdir_loop (Dirent (d_name, S_IFREG sz) # dir) basePath s =
   Some (False, logs l_ERROR ''Couldn't allocate memory''
     (s\<lparr>heap_script := tl (tl (heap_script s)),
        files := Ptr ((resized (files s) (fileCnt s + 1))[fileCnt s := Some NULL])\<rparr>))"
  by (simp add: LOGMSG_nonfatal realloc_def next_alloc_def strdup_def store_def Let_def)

lemma step_append:
  "\<not> (d_name = ''.'' \<or> d_name = ''..'') \<Longrightarrow> 0 < sz \<Longrightarrow>
   next_ok (heap_script s) \<Longrightarrow> next_ok (tl (heap_script s)) \<Longrightarrow>
   readdir_loop (Dirent (d_name, S_IFREG sz) # dir) basePath s =
   readdir_loop dir basePath
     (logs l_DEBUG (''Added '' @ quoted (join_path basePath d_name) @ '' to the list of input files'')
       (s\<lparr>heap_script := tl (tl (heap_script s)),
          files := Ptr ((resized (files s) (fileCnt s + 1))[fileCnt s := Some (Ptr (join_path basePath d_name))]),
          fileCnt := fileCnt s + 1\<rparr>))"
  by (simp add: LOGMSG_nonfatal realloc_def next_alloc_def strdup_def store_def Let_def)

lemma walk_returns:
  "\<exists>ok s'. utils_readdir sub basePath s = Some (ok, s')"
  "\<exists>ok s'. readdir_loop dir basePath s = Some (ok, s')"
proof (induction sub basePath s and dir basePath s rule: utils_readdir_readdir_loop.induct)
  case (6 d_name st dir basePath s)
  show ?case
  proof (cases "d_name = ''.'' \<or> d_name = ''..''")
    case True
    with 6(1) show ?thesis by simp
  next
    case False
    show ?thesis
    proof (cases st)
      case StatFails
      with False 6(2) show ?thesis by (simp add: LOGMSG_nonfatal)
    next
      case (S_IFREG sz)
      with False 6(3,4) show ?thesis
        by (auto simp: LOGMSG_nonfatal Let_def split: prod.splits)
    next
      case (S_IFDIR sub)
      from 6(5) [OF False refl S_IFDIR] obtain ok s1
        where r: "utils_readdir sub (join_path basePath d_name) s = Some (ok, s1)" by blast
      show ?thesis
      proof (cases ok)
        case True
        with 6(7) [OF False refl S_IFDIR r] False r S_IFDIR show ?thesis
          by (simp add: LOGMSG_nonfatal)
      next
        case ok: False
        with 6(6) [OF False refl S_IFDIR r] False r S_IFDIR show ?thesis
          by (simp add: LOGMSG_nonfatal)
      qed
    next
      case S_IFOTHER
      with False 6(8) show ?thesis by (simp add: LOGMSG_nonfatal)
    qed
  qed
qed (auto simp: LOGMSG_nonfatal)


lemma fileCnt_logs [simp]: "fileCnt (logs lvl msg s) = fileCnt s"
  by (simp add: logs_def)

lemma walk_keeps_fileCnt:
  "\<not> has_regular_file (S_IFDIR sub) \<Longrightarrow> utils_readdir sub basePath s = Some (ok, s') \<Longrightarrow>
   fileCnt s' = fileCnt s"
  "\<not> stream_has_regular_file dir \<Longrightarrow> readdir_loop dir basePath s = Some (ok, s') \<Longrightarrow>
   fileCnt s' = fileCnt s"
proof (induction sub basePath s and dir basePath s arbitrary: ok s' and ok s'
       rule: utils_readdir_readdir_loop.induct)
  case (1 basePath s)
  then show ?case by (auto simp: LOGMSG_nonfatal)
next
  case (2 dir basePath s)
  then show ?case by simp
next
  case (3 basePath s)
  then show ?case by simp
next
  case (4 dir basePath s)
  then show ?case by simp
next
  case (5 dir basePath s)
  then show ?case by (auto simp: LOGMSG_nonfatal)
next
  case (6 d_name st dir basePath s)
  note run = \<open>readdir_loop (Dirent (d_name, st) # dir) basePath s = Some (ok, s')\<close>
  note nofile = \<open>\<not> stream_has_regular_file (Dirent (d_name, st) # dir)\<close>
  let ?path = "join_path basePath d_name"
  show ?case
  proof (cases "d_name = ''.'' \<or> d_name = ''..''")
    case True
    from nofile have rest: "\<not> stream_has_regular_file dir" by simp
    from run True have "readdir_loop dir basePath s = Some (ok, s')"
      by (simp only: step_dots)
    from 6(1) [OF True rest this] show ?thesis .
  next
    case False
    from nofile False have rest: "\<not> stream_has_regular_file dir" and here: "\<not> has_regular_file st"
      by simp_all
    show ?thesis
    proof (cases st)
      case StatFails
      let ?s1 = "logs l_WARN (''Couldn't stat() the '' @ quoted ?path @ '' file'') s"
      have l: "LOGMSG l_WARN (''Couldn't stat() the '' @ quoted ?path @ '' file'') s = Some ?s1"
        by (simp add: LOGMSG_nonfatal)
      from run have "readdir_loop dir basePath ?s1 = Some (ok, s')"
        unfolding StatFails step_StatFails [OF False] .
      from 6(2) [OF False refl StatFails l rest this] show ?thesis by simp
    next
      case (S_IFREG sz)
      with here have sz: "sz = 0" by simp
      let ?s1 = "logs l_DEBUG (quoted ?path @ '' is empty'') s"
      have l: "LOGMSG l_DEBUG (quoted ?path @ '' is empty'') s = Some ?s1"
        by (simp add: LOGMSG_nonfatal)
      from run have "readdir_loop dir basePath ?s1 = Some (ok, s')"
        unfolding S_IFREG sz step_empty [OF False] .
      from 6(3) [OF False refl S_IFREG sz l rest this] show ?thesis by simp
    next
      case (S_IFDIR sub)
      from walk_returns(1) obtain ok1 s1
        where r: "utils_readdir sub ?path s = Some (ok1, s1)" by blast
      from here have "\<not> has_regular_file (S_IFDIR sub)" unfolding S_IFDIR .
      from 6(5) [OF False refl S_IFDIR this r] have c1: "fileCnt s1 = fileCnt s" .
      show ?thesis
      proof (cases ok1)
        case True
        let ?s2 = "logs l_DEBUG (quoted ?path @ '' is not a regular file, skipping'') s1"
        have l: "LOGMSG l_DEBUG (quoted ?path @ '' is not a regular file, skipping'') s1 = Some ?s2"
          by (simp add: LOGMSG_nonfatal)
        from r True have r': "utils_readdir sub ?path s = Some (True, s1)" by simp
        from run have "readdir_loop dir basePath ?s2 = Some (ok, s')"
          unfolding S_IFDIR step_subdir_ok [OF False r'] .
        from 6(7) [OF False refl S_IFDIR r' refl _ l rest this] c1 show ?thesis by simp
      next
        case ok1: False
        let ?s2 = "logs l_ERROR (''Failed to process '' @ quoted ?path @ '' directory'') s1"
        have l: "LOGMSG l_ERROR (''Failed to process '' @ quoted ?path @ '' directory'') s1 = Some ?s2"
          by (simp add: LOGMSG_nonfatal)
        from r ok1 have r': "utils_readdir sub ?path s = Some (False, s1)" by simp
        from run have "readdir_loop dir basePath ?s2 = Some (ok, s')"
          unfolding S_IFDIR step_subdir_fails [OF False r'] .
        from 6(6) [OF False refl S_IFDIR r' refl _ l rest this] c1 show ?thesis by simp
      qed
    next
      case S_IFOTHER
      let ?s1 = "logs l_DEBUG (quoted ?path @ '' is not a regular file, skipping'') s"
      have l: "LOGMSG l_DEBUG (quoted ?path @ '' is not a regular file, skipping'') s = Some ?s1"
        by (simp add: LOGMSG_nonfatal)
      from run have "readdir_loop dir basePath ?s1 = Some (ok, s')"
        unfolding S_IFOTHER step_S_IFOTHER [OF False] .
      from 6(8) [OF False refl S_IFOTHER l rest this] show ?thesis by simp
    qed
  qed
qed

subsection \<open>The allocation script and the file set during a walk\<close>

lemma never_fails_next: "never_fails h \<Longrightarrow> next_ok h \<and> never_fails (tl h)"
  by (cases h) (simp_all add: never_fails_def next_ok_def)

lemma never_fails_subset: "set h' \<subseteq> set h \<Longrightarrow> never_fails h \<Longrightarrow> never_fails h'"
  by (auto simp: never_fails_def list_all_iff)

lemma set_tl_subset: "set (tl h) \<subseteq> set h"
  by (cases h) auto

lemma heap_script_logs [simp]: "heap_script (logs lvl msg s) = heap_script s"
  by (simp add: logs_def)

lemma fileset_so_far_logs [simp]: "fileset_so_far G (logs lvl msg s) = fileset_so_far G s"
  by (simp add: fileset_so_far_def logs_def split: ptr.splits)

lemma length_resized [simp]: "length (resized p n) = n"
  by (cases p) (simp_all add: resized_def)

lemma nth_resized: "i < n \<Longrightarrow> i < length b \<Longrightarrow> resized (Ptr b) n ! i = b ! i"
  by (simp add: resized_def nth_append)

lemma fileset_so_far_append:
  assumes "fileset_so_far G s" and "path \<in> G"
  shows "fileset_so_far G
     (s\<lparr>heap_script := h,
        files := Ptr ((resized (files s) (fileCnt s + 1))[fileCnt s := Some (Ptr path)]),
        fileCnt := fileCnt s + 1\<rparr>)"
proof -
  from assms(1) obtain b where b: "files s = Ptr b" and le: "fileCnt s \<le> length b"
    and good: "\<forall>i < fileCnt s. \<exists>path \<in> G. b ! i = Some (Ptr path)"
    by (auto simp: fileset_so_far_def split: ptr.splits)
  have "\<exists>p \<in> G. (resized (Ptr b) (fileCnt s + 1))[fileCnt s := Some (Ptr path)] ! i = Some (Ptr p)"
    if "i < fileCnt s + 1" for i
  proof (cases "i = fileCnt s")
    case True
    with assms(2) show ?thesis by auto
  next
    case False
    with that have i: "i < fileCnt s" by simp
    with le have "resized (Ptr b) (fileCnt s + 1) ! i = b ! i"
      by (intro nth_resized) simp_all
    with good i False show ?thesis by simp
  qed
  then show ?thesis
    by (simp add: fileset_so_far_def b)
qed


lemma files_logs [simp]: "files (logs lvl msg s) = files s"
  by (simp add: logs_def)

text \<open>
  What a walk does to the allocation script and to the file set: it only consumes the
  script, and while no allocation fails it appends paths of the tree it walks.
\<close>

lemma walk_appends:
  "utils_readdir sub basePath s = Some (ok, s') \<Longrightarrow>
   set (heap_script s') \<subseteq> set (heap_script s) \<and>
   (never_fails (heap_script s) \<longrightarrow> fileset_so_far G s \<longrightarrow>
    set (regular_paths (S_IFDIR sub) basePath) \<subseteq> G \<longrightarrow> fileset_so_far G s')"
  "readdir_loop dir basePath s = Some (ok, s') \<Longrightarrow>
   set (heap_script s') \<subseteq> set (heap_script s) \<and>
   (never_fails (heap_script s) \<longrightarrow> fileset_so_far G s \<longrightarrow>
    set (stream_regular_paths dir basePath) \<subseteq> G \<longrightarrow> fileset_so_far G s')"
proof (induction sub basePath s and dir basePath s arbitrary: ok s' and ok s'
       rule: utils_readdir_readdir_loop.induct)
  case (1 basePath s)
  then show ?case by (auto simp: LOGMSG_nonfatal)
next
  case (2 dir basePath s)
  then show ?case by simp
next
  case (3 basePath s)
  then show ?case by simp
next
  case (4 dir basePath s)
  then show ?case by simp
next
  case (5 dir basePath s)
  then show ?case by (auto simp: LOGMSG_nonfatal)
next
  case (6 d_name st dir basePath s)
  note run = \<open>readdir_loop (Dirent (d_name, st) # dir) basePath s = Some (ok, s')\<close>
  let ?path = "join_path basePath d_name"
  let ?goal = "\<lambda>s0 paths. set (heap_script s') \<subseteq> set (heap_script s0) \<and>
       (never_fails (heap_script s0) \<longrightarrow> fileset_so_far G s0 \<longrightarrow> set paths \<subseteq> G \<longrightarrow> fileset_so_far G s')"
  show ?case
  proof (cases "d_name = ''.'' \<or> d_name = ''..''")
    case True
    from run True have "readdir_loop dir basePath s = Some (ok, s')"
      by (simp only: step_dots)
    from 6(1) [OF True this] True show ?thesis by simp
  next
    case False
    have paths: "stream_regular_paths (Dirent (d_name, st) # dir) basePath =
        regular_paths st ?path @ stream_regular_paths dir basePath"
      using False by simp
    show ?thesis
    proof (cases st)
      case StatFails
      let ?s1 = "logs l_WARN (''Couldn't stat() the '' @ quoted ?path @ '' file'') s"
      have l: "LOGMSG l_WARN (''Couldn't stat() the '' @ quoted ?path @ '' file'') s = Some ?s1"
        by (simp add: LOGMSG_nonfatal)
      from run have "readdir_loop dir basePath ?s1 = Some (ok, s')"
        unfolding StatFails step_StatFails [OF False] .
      from 6(2) [OF False refl StatFails l this] show ?thesis
        unfolding paths by simp
    next
      case S_IFOTHER
      let ?s1 = "logs l_DEBUG (quoted ?path @ '' is not a regular file, skipping'') s"
      have l: "LOGMSG l_DEBUG (quoted ?path @ '' is not a regular file, skipping'') s = Some ?s1"
        by (simp add: LOGMSG_nonfatal)
      from run have "readdir_loop dir basePath ?s1 = Some (ok, s')"
        unfolding S_IFOTHER step_S_IFOTHER [OF False] .
      from 6(8) [OF False refl S_IFOTHER l this] show ?thesis
        unfolding paths by simp
    next
      case (S_IFDIR sub)
      from walk_returns(1) obtain ok1 s1
        where r: "utils_readdir sub ?path s = Some (ok1, s1)" by blast
      from 6(5) [OF False refl S_IFDIR r]
      have sub: "set (heap_script s1) \<subseteq> set (heap_script s)"
        "never_fails (heap_script s) \<Longrightarrow> fileset_so_far G s \<Longrightarrow>
         set (regular_paths (S_IFDIR sub) ?path) \<subseteq> G \<Longrightarrow> fileset_so_far G s1"
        by simp_all
      have rest: "set (heap_script s') \<subseteq> set (heap_script s1) \<and>
         (never_fails (heap_script s1) \<longrightarrow> fileset_so_far G s1 \<longrightarrow>
          set (stream_regular_paths dir basePath) \<subseteq> G \<longrightarrow> fileset_so_far G s')"
      proof (cases ok1)
        case True
        let ?s2 = "logs l_DEBUG (quoted ?path @ '' is not a regular file, skipping'') s1"
        have l: "LOGMSG l_DEBUG (quoted ?path @ '' is not a regular file, skipping'') s1 = Some ?s2"
          by (simp add: LOGMSG_nonfatal)
        from r True have r': "utils_readdir sub ?path s = Some (True, s1)" by simp
        from run have "readdir_loop dir basePath ?s2 = Some (ok, s')"
          unfolding S_IFDIR step_subdir_ok [OF False r'] .
        from 6(7) [OF False refl S_IFDIR r' refl _ l this] show ?thesis by simp
      next
        case ok1: False
        let ?s2 = "logs l_ERROR (''Failed to process '' @ quoted ?path @ '' directory'') s1"
        have l: "LOGMSG l_ERROR (''Failed to process '' @ quoted ?path @ '' directory'') s1 = Some ?s2"
          by (simp add: LOGMSG_nonfatal)
        from r ok1 have r': "utils_readdir sub ?path s = Some (False, s1)" by simp
        from run have "readdir_loop dir basePath ?s2 = Some (ok, s')"
          unfolding S_IFDIR step_subdir_fails [OF False r'] .
        from 6(6) [OF False refl S_IFDIR r' refl _ l this] show ?thesis by simp
      qed
      show ?thesis
      proof (intro conjI impI)
        show "set (heap_script s') \<subseteq> set (heap_script s)"
          using rest sub(1) by blast
        assume nf: "never_fails (heap_script s)" and fs: "fileset_so_far G s"
          and G: "set (stream_regular_paths (Dirent (d_name, st) # dir) basePath) \<subseteq> G"
        from G [unfolded paths] have G1: "set (regular_paths (S_IFDIR sub) ?path) \<subseteq> G"
          and G2: "set (stream_regular_paths dir basePath) \<subseteq> G"
          unfolding S_IFDIR by simp_all
        from never_fails_subset [OF sub(1) nf] sub(2) [OF nf fs G1] G2 rest
        show "fileset_so_far G s'" by blast
      qed
    next
      case (S_IFREG sz)
      show ?thesis
      proof (cases "sz = 0")
        case True
        let ?s1 = "logs l_DEBUG (quoted ?path @ '' is empty'') s"
        have l: "LOGMSG l_DEBUG (quoted ?path @ '' is empty'') s = Some ?s1"
          by (simp add: LOGMSG_nonfatal)
        from run have "readdir_loop dir basePath ?s1 = Some (ok, s')"
          unfolding S_IFREG True step_empty [OF False] .
        from 6(3) [OF False refl S_IFREG True l this] show ?thesis
          unfolding paths unfolding S_IFREG True by simp
      next
        case pos: False
        then have sz: "0 < sz" by simp
        show ?thesis
        proof (cases "next_ok (heap_script s)")
          case no: False
          from run have "s' = logs l_ERROR ''Couldn't allocate memory''
              (s\<lparr>heap_script := tl (heap_script s), files := NULL\<rparr>)"
            unfolding S_IFREG step_realloc_fails [OF False sz no] by simp
          with no show ?thesis
            using set_tl_subset [of "heap_script s"] never_fails_next [of "heap_script s"] by auto
        next
          case yes: True
          show ?thesis
          proof (cases "next_ok (tl (heap_script s))")
            case no: False
            from run have "s' = logs l_ERROR ''Couldn't allocate memory''
                (s\<lparr>heap_script := tl (tl (heap_script s)),
                   files := Ptr ((resized (files s) (fileCnt s + 1))[fileCnt s := Some NULL])\<rparr>)"
              unfolding S_IFREG step_strdup_fails [OF False sz yes no] by simp
            with no show ?thesis
              using set_tl_subset [of "heap_script s"] set_tl_subset [of "tl (heap_script s)"]
                never_fails_next [of "heap_script s"] never_fails_next [of "tl (heap_script s)"]
              by auto
          next
            case yes2: True
            let ?s4 = "s\<lparr>heap_script := tl (tl (heap_script s)),
                files := Ptr ((resized (files s) (fileCnt s + 1))[fileCnt s := Some (Ptr ?path)]),
                fileCnt := fileCnt s + 1\<rparr>"
            let ?s5 = "logs l_DEBUG (''Added '' @ quoted ?path @ '' to the list of input files'') ?s4"
            from run have run': "readdir_loop dir basePath ?s5 = Some (ok, s')"
              unfolding S_IFREG step_append [OF False sz yes yes2] .
            have pre: "realloc (files s) (fileCnt s + 1) s =
                (Ptr (resized (files s) (fileCnt s + 1)), s\<lparr>heap_script := tl (heap_script s)\<rparr>)"
              using yes by (simp add: realloc_def next_alloc_def)
            have dup: "strdup ?path (s\<lparr>heap_script := tl (heap_script s), files := Ptr (resized (files s) (fileCnt s + 1))\<rparr>) =
                (Ptr ?path, s\<lparr>heap_script := tl (tl (heap_script s)), files := Ptr (resized (files s) (fileCnt s + 1))\<rparr>)"
              using yes2 by (simp add: strdup_def next_alloc_def)
            have l: "LOGMSG l_DEBUG (''Added '' @ quoted ?path @ '' to the list of input files'') ?s4 = Some ?s5"
              by (simp add: LOGMSG_nonfatal)
            have rest: "set (heap_script s') \<subseteq> set (heap_script ?s5) \<and>
               (never_fails (heap_script ?s5) \<longrightarrow> fileset_so_far G ?s5 \<longrightarrow>
                set (stream_regular_paths dir basePath) \<subseteq> G \<longrightarrow> fileset_so_far G s')"
              by (rule 6(4) [OF False refl S_IFREG pos pre [symmetric] refl refl _ dup [symmetric] refl refl _ _ run'])
                 (simp_all add: store_def LOGMSG_nonfatal)
            show ?thesis
            proof (intro conjI impI)
              show "set (heap_script s') \<subseteq> set (heap_script s)"
                using rest set_tl_subset [of "heap_script s"] set_tl_subset [of "tl (heap_script s)"]
                by auto
              assume nf: "never_fails (heap_script s)" and fs: "fileset_so_far G s"
                and G: "set (stream_regular_paths (Dirent (d_name, st) # dir) basePath) \<subseteq> G"
              from G [unfolded paths] sz have G1: "?path \<in> G"
                and G2: "set (stream_regular_paths dir basePath) \<subseteq> G"
                unfolding S_IFREG by simp_all
              have "never_fails (heap_script ?s5)"
                using nf never_fails_next [of "heap_script s"] never_fails_next [of "tl (heap_script s)"]
                by simp
              moreover have "fileset_so_far G ?s5"
                using fileset_so_far_append [OF fs G1] by simp
              ultimately show "fileset_so_far G s'"
                using rest G2 by blast
            qed
          qed
        qed
      qed
    qed
  qed
qed

text \<open>
  While memory lasts, a directory that opens and whose \<^verbatim>\<open>readdir\<close> does not fail is walked
  with success, whatever its entries are and whatever happens in its subdirectories.
\<close>

lemma walk_succeeds:
  "never_fails (heap_script s) \<Longrightarrow> ReaddirFails \<notin> set dir \<Longrightarrow>
   \<exists>s'. readdir_loop dir basePath s = Some (True, s')"
proof (induction dir arbitrary: s)
  case Nil
  show ?case by simp
next
  case (Cons ans dir)
  from Cons.prems(2) have rest: "ReaddirFails \<notin> set dir" and here: "ans \<noteq> ReaddirFails"
    by auto
  note IH = Cons.IH [OF _ rest]
  show ?case
  proof (cases ans)
    case ReaddirFails
    with here show ?thesis by simp
  next
    case ReaddirEINTR
    with IH [OF Cons.prems(1)] show ?thesis by simp
  next
    case (Dirent e)
    obtain d_name st where e: "e = (d_name, st)" by (cases e)
    let ?path = "join_path basePath d_name"
    show ?thesis
    proof (cases "d_name = ''.'' \<or> d_name = ''..''")
      case True
      with IH [OF Cons.prems(1)] show ?thesis
        unfolding Dirent e by (simp only: step_dots)
    next
      case False
      show ?thesis
      proof (cases st)
        case StatFails
        show ?thesis
          unfolding Dirent e StatFails step_StatFails [OF False]
          by (rule IH) (simp add: Cons.prems(1))
      next
        case S_IFOTHER
        show ?thesis
          unfolding Dirent e S_IFOTHER step_S_IFOTHER [OF False]
          by (rule IH) (simp add: Cons.prems(1))
      next
        case (S_IFDIR sub)
        from walk_returns(1) obtain ok1 s1
          where r: "utils_readdir sub ?path s = Some (ok1, s1)" by blast
        from walk_appends(1) [OF r] Cons.prems(1) have nf: "never_fails (heap_script s1)"
          by (blast intro: never_fails_subset)
        show ?thesis
        proof (cases ok1)
          case True
          with r have r': "utils_readdir sub ?path s = Some (True, s1)" by simp
          show ?thesis
            unfolding Dirent e S_IFDIR step_subdir_ok [OF False r']
            by (rule IH) (simp add: nf)
        next
          case False': False
          with r have r': "utils_readdir sub ?path s = Some (False, s1)" by simp
          show ?thesis
            unfolding Dirent e S_IFDIR step_subdir_fails [OF False r']
            by (rule IH) (simp add: nf)
        qed
      next
        case (S_IFREG sz)
        show ?thesis
        proof (cases "sz = 0")
          case True
          show ?thesis
            unfolding Dirent e S_IFREG True step_empty [OF False]
            by (rule IH) (simp add: Cons.prems(1))
        next
          case pos: False
          then have sz: "0 < sz" by simp
          from never_fails_next [OF Cons.prems(1)]
          have a1: "next_ok (heap_script s)" and nf1: "never_fails (tl (heap_script s))"
            by simp_all
          from never_fails_next [OF nf1]
          have a2: "next_ok (tl (heap_script s))" and nf2: "never_fails (tl (tl (heap_script s)))"
            by simp_all
          show ?thesis
            unfolding Dirent e S_IFREG step_append [OF False sz a1 a2]
            by (rule IH) (simp add: nf2)
        qed
      qed
    qed
  qed
qed

subsection \<open>The claims about the walk\<close>

text \<open>The definitions a concrete walk is evaluated with.\<close>

lemmas walk_eval = LOGMSG_nonfatal logs_def join_path_def PATH_MAX_def quoted_def realloc_def
  strdup_def malloc_def next_alloc_def next_ok_def resized_def store_def collected_def

text \<open>
  C1, as the code has it. The walk does not use the fatal allocator: it calls
  \<^verbatim>\<open>realloc\<close> and \<^verbatim>\<open>strdup\<close> itself, and when one of them fails while a path is
  appended, the call of \<^verbatim>\<open>utils_readdir\<close> that was appending logs an error and returns
  \<open>False\<close> to its caller, an ordinary failure. No call of the walk ends the process.
\<close>

theorem walk_allocation_failure_is_reported:
  "(\<exists>ok s'. utils_readdir sub basePath s = Some (ok, s')) \<and>
   (d_name \<noteq> ''.'' \<and> d_name \<noteq> ''..'' \<and> 0 < sz \<and> \<not> next_ok (heap_script s) \<longrightarrow>
      readdir_loop (Dirent (d_name, S_IFREG sz) # dir) basePath s =
      Some (False, logs l_ERROR ''Couldn't allocate memory''
        (s\<lparr>heap_script := tl (heap_script s), files := NULL\<rparr>))) \<and>
   (d_name \<noteq> ''.'' \<and> d_name \<noteq> ''..'' \<and> 0 < sz \<and>
    next_ok (heap_script s) \<and> \<not> next_ok (tl (heap_script s)) \<longrightarrow>
      readdir_loop (Dirent (d_name, S_IFREG sz) # dir) basePath s =
      Some (False, logs l_ERROR ''Couldn't allocate memory''
        (s\<lparr>heap_script := tl (tl (heap_script s)),
           files := Ptr ((resized (files s) (fileCnt s + 1))[fileCnt s := Some NULL])\<rparr>)))"
  using walk_returns(1) [of sub basePath s]
  by (auto simp: step_realloc_fails step_strdup_fails simp del: readdir_loop.simps)

theorem walk_allocation_failure_is_reported_witness:
  "''a.img'' \<noteq> ''.'' \<and> ''a.img'' \<noteq> ''..'' \<and> (0::nat) < 7 \<and>
   \<not> next_ok (heap_script
       \<lparr>heap_script = [False], logged = [], inputFile = Ptr ''in'', files = Ptr [None], fileCnt = 0\<rparr>) \<and>
   readdir_loop [Dirent (''a.img'', S_IFREG 7)] ''in''
     \<lparr>heap_script = [False], logged = [], inputFile = Ptr ''in'', files = Ptr [None], fileCnt = 0\<rparr> =
   Some (False,
     \<lparr>heap_script = [], logged = [(l_ERROR, ''Couldn't allocate memory'')],
      inputFile = Ptr ''in'', files = NULL, fileCnt = 0\<rparr>) \<and>
   next_ok (heap_script
       \<lparr>heap_script = [True, False], logged = [], inputFile = Ptr ''in'', files = Ptr [None], fileCnt = 0\<rparr>) \<and>
   \<not> next_ok (tl (heap_script
       \<lparr>heap_script = [True, False], logged = [], inputFile = Ptr ''in'', files = Ptr [None], fileCnt = 0\<rparr>)) \<and>
   readdir_loop [Dirent (''a.img'', S_IFREG 7)] ''in''
     \<lparr>heap_script = [True, False], logged = [], inputFile = Ptr ''in'', files = Ptr [None], fileCnt = 0\<rparr> =
   Some (False,
     \<lparr>heap_script = [], logged = [(l_ERROR, ''Couldn't allocate memory'')],
      inputFile = Ptr ''in'', files = Ptr [Some NULL], fileCnt = 0\<rparr>)"
  using walk_allocation_failure_is_reported
    [of "Some []" "''in''"
        "\<lparr>heap_script = [False], logged = [], inputFile = Ptr ''in'', files = Ptr [None], fileCnt = 0\<rparr>"
        "''a.img''" 7 "[]"]
    walk_allocation_failure_is_reported
    [of "Some []" "''in''"
        "\<lparr>heap_script = [True, False], logged = [], inputFile = Ptr ''in'', files = Ptr [None], fileCnt = 0\<rparr>"
        "''a.img''" 7 "[]"]
  by (simp add: next_ok_def logs_def resized_def)

text \<open>
  The claim C1 as it is written (an allocation failure during an append ends the
  process) fails on a directory with one regular file of seven bytes when the first
  allocation fails: the walk returns \<open>False\<close>.
\<close>

theorem walk_allocation_failure_counterexample:
  "utils_readdir (Some [Dirent (''a.img'', S_IFREG 7)]) ''in''
     \<lparr>heap_script = [False], logged = [], inputFile = Ptr ''in'', files = Ptr [None], fileCnt = 0\<rparr> =
   Some (False,
     \<lparr>heap_script = [], logged = [(l_ERROR, ''Couldn't allocate memory'')],
      inputFile = Ptr ''in'', files = NULL, fileCnt = 0\<rparr>)"
  by (simp add: step_realloc_fails next_ok_def logs_def del: readdir_loop.simps(4))

text \<open>
  C4. An entry that \<^verbatim>\<open>stat\<close> fails on, and a subdirectory whose walk reports failure,
  are logged and skipped: the walk of the enclosing directory is the walk of the
  remaining entries, from the state with the message logged, so its result is theirs.
  In particular, while memory lasts and \<^verbatim>\<open>readdir\<close> does not fail in the enclosing
  directory, the enclosing walk returns success with such an entry in it. (The entries
  \<^verbatim>\<open>.\<close> and \<^verbatim>\<open>..\<close> are passed over before \<^verbatim>\<open>stat\<close> is called.)
\<close>

theorem walk_skips_failing_entries:
  "(d_name \<noteq> ''.'' \<and> d_name \<noteq> ''..'' \<longrightarrow>
     readdir_loop (Dirent (d_name, StatFails) # dir) basePath s =
     readdir_loop dir basePath
       (logs l_WARN (''Couldn't stat() the '' @ quoted (join_path basePath d_name) @ '' file'') s) \<and>
     (utils_readdir sub (join_path basePath d_name) s = Some (False, s1) \<longrightarrow>
        readdir_loop (Dirent (d_name, S_IFDIR sub) # dir) basePath s =
        readdir_loop dir basePath
          (logs l_ERROR (''Failed to process '' @ quoted (join_path basePath d_name) @ '' directory'') s1))) \<and>
   (never_fails (heap_script s) \<and> ReaddirFails \<notin> set dir \<longrightarrow>
      map_option fst (readdir_loop (Dirent (d_name, StatFails) # dir) basePath s) = Some True \<and>
      map_option fst (readdir_loop (Dirent (d_name, S_IFDIR sub) # dir) basePath s) = Some True)"
proof (intro conjI impI)
  assume "never_fails (heap_script s) \<and> ReaddirFails \<notin> set dir"
  then have nf: "never_fails (heap_script s)"
    and e1: "ReaddirFails \<notin> set (Dirent (d_name, StatFails) # dir)"
    and e2: "ReaddirFails \<notin> set (Dirent (d_name, S_IFDIR sub) # dir)"
    by simp_all
  from walk_succeeds [OF nf e1, of basePath] obtain s1'
    where "readdir_loop (Dirent (d_name, StatFails) # dir) basePath s = Some (True, s1')" ..
  then show "map_option fst (readdir_loop (Dirent (d_name, StatFails) # dir) basePath s) = Some True"
    by (simp only: option.map fst_conv)
  from walk_succeeds [OF nf e2, of basePath] obtain s2'
    where "readdir_loop (Dirent (d_name, S_IFDIR sub) # dir) basePath s = Some (True, s2')" ..
  then show "map_option fst (readdir_loop (Dirent (d_name, S_IFDIR sub) # dir) basePath s) = Some True"
    by (simp only: option.map fst_conv)
qed (auto simp: step_StatFails step_subdir_fails simp del: readdir_loop.simps)

theorem walk_skips_failing_entries_witness:
  "''locked'' \<noteq> ''.'' \<and> ''locked'' \<noteq> ''..'' \<and>
   never_fails (heap_script
     \<lparr>heap_script = [], logged = [], inputFile = Ptr ''in'', files = Ptr [None], fileCnt = 0\<rparr>) \<and>
   ReaddirFails \<notin> set [Dirent (''a.img'', S_IFREG 3)] \<and>
   utils_readdir None (join_path ''in'' ''locked'')
     \<lparr>heap_script = [], logged = [], inputFile = Ptr ''in'', files = Ptr [None], fileCnt = 0\<rparr> =
   Some (False,
     \<lparr>heap_script = [], logged = [(l_ERROR, ''Couldn't open dir '' @ quoted ''in/locked'')],
      inputFile = Ptr ''in'', files = Ptr [None], fileCnt = 0\<rparr>) \<and>
   collected (readdir_loop [Dirent (''locked'', StatFails), Dirent (''a.img'', S_IFREG 3)] ''in''
     \<lparr>heap_script = [], logged = [], inputFile = Ptr ''in'', files = Ptr [None], fileCnt = 0\<rparr>) =
   Some (True, Ptr [Some (Ptr ''in/a.img'')], 1) \<and>
   collected (readdir_loop [Dirent (''locked'', S_IFDIR None), Dirent (''a.img'', S_IFREG 3)] ''in''
     \<lparr>heap_script = [], logged = [], inputFile = Ptr ''in'', files = Ptr [None], fileCnt = 0\<rparr>) =
   Some (True, Ptr [Some (Ptr ''in/a.img'')], 1)"
proof -
  let ?s = "\<lparr>heap_script = [], logged = [], inputFile = Ptr ''in'', files = Ptr [None], fileCnt = 0\<rparr>"
  let ?s1 = "\<lparr>heap_script = [], logged = [(l_ERROR, ''Couldn't open dir '' @ quoted ''in/locked'')],
      inputFile = Ptr ''in'', files = Ptr [None], fileCnt = 0\<rparr>"
  have names: "''locked'' \<noteq> ''.'' \<and> ''locked'' \<noteq> ''..''"
    by simp
  have sub: "utils_readdir None (join_path ''in'' ''locked'') ?s = Some (False, ?s1)"
    by (simp add: walk_eval)
  note skip = walk_skips_failing_entries
    [of "''locked''" "[Dirent (''a.img'', S_IFREG 3)]" "''in''" ?s None ?s1,
     THEN conjunct1, rule_format, OF names]
  have rest1: "collected (readdir_loop [Dirent (''a.img'', S_IFREG 3)] ''in''
      (logs l_WARN (''Couldn't stat() the '' @ quoted (join_path ''in'' ''locked'') @ '' file'') ?s)) =
      Some (True, Ptr [Some (Ptr ''in/a.img'')], 1)"
    by (simp add: walk_eval)
  have rest2: "collected (readdir_loop [Dirent (''a.img'', S_IFREG 3)] ''in''
      (logs l_ERROR (''Failed to process '' @ quoted (join_path ''in'' ''locked'') @ '' directory'') ?s1)) =
      Some (True, Ptr [Some (Ptr ''in/a.img'')], 1)"
    by (simp add: walk_eval)
  from skip [THEN conjunct1] rest1
  have one: "collected (readdir_loop [Dirent (''locked'', StatFails), Dirent (''a.img'', S_IFREG 3)] ''in'' ?s) =
      Some (True, Ptr [Some (Ptr ''in/a.img'')], 1)"
    by (simp only:)
  from skip [THEN conjunct2, rule_format, OF sub] rest2
  have two: "collected (readdir_loop [Dirent (''locked'', S_IFDIR None), Dirent (''a.img'', S_IFREG 3)] ''in'' ?s) =
      Some (True, Ptr [Some (Ptr ''in/a.img'')], 1)"
    by (simp only:)
  have lasts: "never_fails (heap_script ?s) \<and> ReaddirFails \<notin> set [Dirent (''a.img'', S_IFREG 3)]"
    by (simp add: never_fails_def)
  from names sub one two lasts show ?thesis by (simp only: simp_thms)
qed

text \<open>
  C8. A directory whose tree holds no regular file of size greater than zero makes
  \<^verbatim>\<open>utils_init_files\<close> report failure, whatever else the tree holds and whatever fails
  on the way. The file set is empty at entry, as its owner creates it.
\<close>

theorem init_files_fails_without_regular_files:
  assumes "fileCnt s = 0" and "\<not> has_regular_file (S_IFDIR sub)"
  shows "map_option fst (utils_init_files (S_IFDIR sub) s) = Some False"
proof (cases "next_ok (heap_script s)")
  case False
  then show ?thesis
    by (simp add: utils_init_files_def malloc_def next_alloc_def LOGMSG_nonfatal)
next
  case True
  let ?s2 = "s\<lparr>heap_script := tl (heap_script s), files := Ptr [None]\<rparr>"
  show ?thesis
  proof (cases "inputFile s")
    case NULL
    with True show ?thesis
      by (simp add: utils_init_files_def malloc_def next_alloc_def LOGMSG_nonfatal)
  next
    case (Ptr input)
    from walk_returns(1) obtain ok s3 where r: "utils_readdir sub input ?s2 = Some (ok, s3)"
      by blast
    from walk_keeps_fileCnt(1) [OF assms(2) r] assms(1) have "fileCnt s3 = 0"
      by simp
    with True Ptr r show ?thesis
      by (auto simp: utils_init_files_def malloc_def next_alloc_def LOGMSG_nonfatal)
  qed
qed

theorem init_files_fails_without_regular_files_witness:
  "fileCnt \<lparr>heap_script = [], logged = [], inputFile = Ptr ''in'', files = NULL, fileCnt = 0\<rparr> = 0 \<and>
   \<not> has_regular_file (S_IFDIR (Some
       [Dirent (''.'', S_IFDIR None), ReaddirEINTR, Dirent (''empty'', S_IFREG 0),
        Dirent (''sub'', S_IFDIR (Some [Dirent (''tty'', S_IFOTHER)])),
        Dirent (''gone'', StatFails)])) \<and>
   map_option fst (utils_init_files (S_IFDIR (Some
       [Dirent (''.'', S_IFDIR None), ReaddirEINTR, Dirent (''empty'', S_IFREG 0),
        Dirent (''sub'', S_IFDIR (Some [Dirent (''tty'', S_IFOTHER)])),
        Dirent (''gone'', StatFails)]))
     \<lparr>heap_script = [], logged = [], inputFile = Ptr ''in'', files = NULL, fileCnt = 0\<rparr>) = Some False"
proof -
  let ?s = "\<lparr>heap_script = [], logged = [], inputFile = Ptr ''in'', files = NULL, fileCnt = 0\<rparr>"
  let ?sub = "Some [Dirent (''.'', S_IFDIR None), ReaddirEINTR, Dirent (''empty'', S_IFREG 0),
        Dirent (''sub'', S_IFDIR (Some [Dirent (''tty'', S_IFOTHER)])),
        Dirent (''gone'', StatFails)]"
  have empty: "fileCnt ?s = 0" by simp
  have nofile: "\<not> has_regular_file (S_IFDIR ?sub)" by simp
  from empty nofile init_files_fails_without_regular_files [OF empty nofile]
  show ?thesis by (simp only: simp_thms)
qed

text \<open>
  C2 on the code: a root path that names a regular file of size zero. The single-file
  branch of \<^verbatim>\<open>utils_init_files\<close> does not look at the size (the walk does, for the
  entries of a directory): it stores the path, sets the count to one and returns success.
\<close>

theorem init_files_accepts_empty_file:
  "utils_init_files (S_IFREG 0)
     \<lparr>heap_script = [], logged = [], inputFile = Ptr ''empty.img'', files = NULL, fileCnt = 0\<rparr> =
   Some (True,
     \<lparr>heap_script = [], logged = [], inputFile = Ptr ''empty.img'',
      files = Ptr [Some (Ptr ''empty.img'')], fileCnt = 1\<rparr>)"
  by (simp add: utils_init_files_def walk_eval)

text \<open>
  The invariant of the file set, where the code keeps it: after a successful run in
  which no allocation fails, on a root that is not a regular file of size zero, started
  with an empty file set.
\<close>

lemma init_files_keeps_invariant:
  assumes nf: "never_fails (heap_script s)" and empty: "fileCnt s = 0"
    and root: "root \<noteq> S_IFREG 0" and input: "inputFile s = Ptr input"
    and run: "utils_init_files root s = Some (True, s')"
  shows "fileset_invariant root input s'"
proof -
  let ?s2 = "s\<lparr>heap_script := tl (heap_script s), files := Ptr [None]\<rparr>"
  from never_fails_next [OF nf] have ok: "next_ok (heap_script s)" and nf2: "never_fails (heap_script ?s2)"
    by simp_all
  show ?thesis
  proof (cases root)
    case StatFails
    with run ok input show ?thesis
      by (simp add: utils_init_files_def malloc_def next_alloc_def LOGMSG_nonfatal)
  next
    case S_IFOTHER
    with run ok input show ?thesis
      by (simp add: utils_init_files_def malloc_def next_alloc_def LOGMSG_nonfatal)
  next
    case (S_IFREG sz)
    with root have "0 < sz" by simp
    with run ok input S_IFREG show ?thesis
      by (auto simp: utils_init_files_def malloc_def next_alloc_def store_def fileset_invariant_def)
  next
    case (S_IFDIR sub)
    let ?G = "set (regular_paths (S_IFDIR sub) input)"
    from walk_returns(1) obtain ok3 s3 where r: "utils_readdir sub input ?s2 = Some (ok3, s3)"
      by blast
    have "fileset_so_far ?G ?s2"
      using empty by (simp add: fileset_so_far_def)
    with walk_appends(1) [OF r, of ?G] nf2 have fs: "fileset_so_far ?G s3"
      by simp
    from run ok input S_IFDIR r have ok3 and cnt: "fileCnt s3 \<noteq> 0"
      and s': "s' = logs l_INFO (dec_of_nat (fileCnt s3) @ '' input files have been added to the list'') s3"
      by (auto simp: utils_init_files_def malloc_def next_alloc_def LOGMSG_nonfatal split: if_splits)
    from fs cnt obtain b where b: "files s3 = Ptr b" "length b = fileCnt s3"
      and good: "\<forall>i < fileCnt s3. \<exists>path \<in> ?G. b ! i = Some (Ptr path)"
      by (auto simp: fileset_so_far_def split: ptr.splits)
    from b(2) good have "list_all (\<lambda>slot. \<exists>path \<in> ?G. slot = Some (Ptr path)) b"
      by (auto simp: list_all_length)
    with b show ?thesis
      by (simp add: fileset_invariant_def s' S_IFDIR)
  qed
qed

text \<open>
  A failed allocation in a subdirectory breaks it as well: \<^verbatim>\<open>realloc\<close> fails while
  \<^verbatim>\<open>sub/b\<close> is appended, the walk of \<^verbatim>\<open>sub\<close> returns \<open>False\<close> with \<^verbatim>\<open>files\<close> null,
  the walk of the root goes on, and appending \<^verbatim>\<open>c\<close> allocates a new array whose first
  slot never received a path.
\<close>

lemma init_files_after_failed_allocation:
  "collected (utils_init_files
     (S_IFDIR (Some [Dirent (''a'', S_IFREG 1),
                     Dirent (''sub'', S_IFDIR (Some [Dirent (''b'', S_IFREG 2)])),
                     Dirent (''c'', S_IFREG 3)]))
     \<lparr>heap_script = [True, True, True, False], logged = [], inputFile = Ptr ''in'',
      files = NULL, fileCnt = 0\<rparr>) =
   Some (True, Ptr [None, Some (Ptr ''in/c'')], 2)"
  by (simp add: utils_init_files_def walk_eval)

text \<open>
  C3 on the code: after that successful run the one entry of the file set names a file
  that had size zero when \<^verbatim>\<open>stat\<close> looked at it, so the invariant of the file set does
  not hold.
\<close>

theorem init_files_breaks_invariant:
  "utils_init_files (S_IFREG 0)
     \<lparr>heap_script = [], logged = [], inputFile = Ptr ''boot.img'', files = NULL, fileCnt = 0\<rparr> =
   Some (True,
     \<lparr>heap_script = [], logged = [], inputFile = Ptr ''boot.img'',
      files = Ptr [Some (Ptr ''boot.img'')], fileCnt = 1\<rparr>) \<and>
   regular_paths (S_IFREG 0) ''boot.img'' = [] \<and>
   \<not> fileset_invariant (S_IFREG 0) ''boot.img''
     \<lparr>heap_script = [], logged = [], inputFile = Ptr ''boot.img'',
      files = Ptr [Some (Ptr ''boot.img'')], fileCnt = 1\<rparr>"
  by (simp add: utils_init_files_def walk_eval fileset_invariant_def)

section \<open>Properties of \<^verbatim>\<open>utils_mapFileToRead\<close>\<close>

lemma MAP_FAILED_not_NULL: "MAP_FAILED \<noteq> NULL_addr"
  by (simp add: MAP_FAILED_def NULL_addr_def)

text \<open>
  C6. \<^verbatim>\<open>utils_mapFileToRead\<close> always returns to its caller. It returns the null pointer
  exactly when \<^verbatim>\<open>open\<close>, \<^verbatim>\<open>fstat\<close> or \<^verbatim>\<open>mmap\<close> fails; when \<^verbatim>\<open>fstat\<close> or \<^verbatim>\<open>mmap\<close>
  fails the descriptor that was opened is closed again; on success the result is the
  mapping, \<^verbatim>\<open>*fileSz\<close> is the size of the file, and \<^verbatim>\<open>*fd\<close> is the descriptor, still
  open. A successful \<^verbatim>\<open>mmap\<close> without \<^verbatim>\<open>MAP_FIXED\<close> never maps at address zero
  (POSIX); that is the hypothesis.
\<close>

theorem utils_mapFileToRead_contract:
  assumes "mmap_ret k \<noteq> NULL_addr"
  shows "\<exists>buf sz' fd' s'.
     utils_mapFileToRead k fileName fileSz fd s = Some ((buf, sz', fd'), s') \<and>
     (buf = NULL_addr \<longleftrightarrow> open_ret k = - 1 \<or> fstat_ret k = - 1 \<or> mmap_ret k = MAP_FAILED) \<and>
     (open_ret k \<noteq> - 1 \<and> (fstat_ret k = - 1 \<or> mmap_ret k = MAP_FAILED) \<longrightarrow>
        fd' = open_ret k \<and> open_ret k \<notin> open_fds s') \<and>
     (buf \<noteq> NULL_addr \<longrightarrow>
        buf = mmap_ret k \<and> sz' = st_size k \<and> fd' = open_ret k \<and>
        open_fds s' = insert (open_ret k) (open_fds s))"
  using assms
  by (simp add: utils_mapFileToRead_def open_call_def close_call_def LOGMSG_nonfatal logs_def)

theorem utils_mapFileToRead_contract_witness:
  "mmap_ret \<lparr>open_ret = 3, fstat_ret = 0, st_size = 4096, mmap_ret = 0x7f0000001000\<rparr> \<noteq> NULL_addr \<and>
   utils_mapFileToRead \<lparr>open_ret = 3, fstat_ret = 0, st_size = 4096, mmap_ret = 0x7f0000001000\<rparr>
     ''boot.img'' 0 (- 1) \<lparr>heap_script = [], logged = [], open_fds = {0, 1, 2}\<rparr> =
   Some ((0x7f0000001000, 4096, 3), \<lparr>heap_script = [], logged = [], open_fds = {0, 1, 2, 3}\<rparr>) \<and>
   mmap_ret \<lparr>open_ret = 3, fstat_ret = 0, st_size = 0, mmap_ret = MAP_FAILED\<rparr> \<noteq> NULL_addr \<and>
   utils_mapFileToRead \<lparr>open_ret = 3, fstat_ret = 0, st_size = 0, mmap_ret = MAP_FAILED\<rparr>
     ''boot.img'' 7 (- 1) \<lparr>heap_script = [], logged = [], open_fds = {0, 1, 2}\<rparr> =
   Some ((NULL_addr, 7, 3),
     \<lparr>heap_script = [], logged = [(l_WARN, ''Couldn't mmap() the '' @ quoted ''boot.img'' @ '' file'')],
      open_fds = {0, 1, 2}\<rparr>)"
proof -
  let ?k = "\<lparr>open_ret = 3, fstat_ret = 0, st_size = 4096, mmap_ret = 0x7f0000001000\<rparr>"
  let ?s = "\<lparr>heap_script = [], logged = [], open_fds = {0, 1, 2}\<rparr>"
  have ok: "mmap_ret ?k \<noteq> NULL_addr"
    by (simp add: NULL_addr_def)
  from utils_mapFileToRead_contract [OF ok, of "''boot.img''" 0 "- 1" ?s]
  obtain buf sz' fd' s' where
    run: "utils_mapFileToRead ?k ''boot.img'' 0 (- 1) ?s = Some ((buf, sz', fd'), s')" and
    null: "buf = NULL_addr \<longleftrightarrow> open_ret ?k = - 1 \<or> fstat_ret ?k = - 1 \<or> mmap_ret ?k = MAP_FAILED" and
    good: "buf \<noteq> NULL_addr \<longrightarrow> buf = mmap_ret ?k \<and> sz' = st_size ?k \<and> fd' = open_ret ?k \<and>
        open_fds s' = insert (open_ret ?k) (open_fds ?s)"
    by blast
  from null have "buf \<noteq> NULL_addr" by (simp add: MAP_FAILED_def)
  with good have "buf = 0x7f0000001000" "sz' = 4096" "fd' = 3" "open_fds s' = {0, 1, 2, 3}"
    by auto
  moreover have "heap_script s' = []" "logged s' = []"
    using run by (auto simp: utils_mapFileToRead_def open_call_def MAP_FAILED_def)
  ultimately have "s' = \<lparr>heap_script = [], logged = [], open_fds = {0, 1, 2, 3}\<rparr>"
    by (cases s') simp
  with run \<open>buf = _\<close> \<open>sz' = _\<close> \<open>fd' = _\<close>
  have mapped: "utils_mapFileToRead ?k ''boot.img'' 0 (- 1) ?s =
      Some ((0x7f0000001000, 4096, 3), \<lparr>heap_script = [], logged = [], open_fds = {0, 1, 2, 3}\<rparr>)"
    by simp
  have failed: "mmap_ret \<lparr>open_ret = 3, fstat_ret = 0, st_size = 0, mmap_ret = MAP_FAILED\<rparr> \<noteq> NULL_addr \<and>
      utils_mapFileToRead \<lparr>open_ret = 3, fstat_ret = 0, st_size = 0, mmap_ret = MAP_FAILED\<rparr>
        ''boot.img'' 7 (- 1) ?s =
      Some ((NULL_addr, 7, 3),
        \<lparr>heap_script = [], logged = [(l_WARN, ''Couldn't mmap() the '' @ quoted ''boot.img'' @ '' file'')],
         open_fds = {0, 1, 2}\<rparr>)"
    by (simp add: utils_mapFileToRead_def open_call_def close_call_def LOGMSG_nonfatal logs_def
        MAP_FAILED_not_NULL)
  from ok mapped failed show ?thesis
    by (simp only: simp_thms)
qed

section \<open>Properties of \<^verbatim>\<open>utils_hexDump\<close>\<close>

lemma gutter_char_not_NUL: "gutter_char b \<noteq> CHR 0x00"
proof
  assume a: "gutter_char b = CHR 0x00"
  show False
  proof (cases "b < 0x20 \<or> 0x7e < b")
    case True
    with a show False by (simp add: gutter_char_def)
  next
    case False
    with a have "char_of (unat b) = CHR 0x00" by (simp add: gutter_char_def)
    then have "of_char (char_of (unat b)) = (of_char (CHR 0x00) :: nat)" by simp
    then have "unat b mod 256 = 0" by simp
    moreover from False have "unat b \<le> 126"
      by (simp add: word_le_nat_alt not_less)
    ultimately have "unat b = 0" by simp
    then have "b = 0" by (simp add: unat_eq_0)
    with False show False by simp
  qed
qed

lemma c_string_put:
  assumes len: "length buff = 17" and i: "i < 16" and g: "g \<noteq> CHR 0x00"
    and pre: "i \<le> length (c_string buff)"
  shows "c_string (buff[i := g, Suc i := CHR 0x00]) = take i (c_string buff) @ [g]"
proof -
  let ?P = "\<lambda>c. c \<noteq> CHR 0x00"
  have "take i (takeWhile ?P buff @ dropWhile ?P buff) = take i (takeWhile ?P buff)"
    using pre by (simp add: c_string_def del: takeWhile_dropWhile_id)
  then have pre_eq: "take i buff = take i (c_string buff)"
    by (simp add: c_string_def)
  have nz: "\<forall>c \<in> set (take i (c_string buff)). ?P c"
    by (auto simp: c_string_def dest!: in_set_takeD set_takeWhileD)
  have "buff[i := g, Suc i := CHR 0x00] = take i buff @ g # CHR 0x00 # drop (Suc (Suc i)) buff"
    using len i by (simp add: upd_conv_take_nth_drop take_Suc_conv_app_nth nth_list_update)
  then have "c_string (buff[i := g, Suc i := CHR 0x00]) =
      takeWhile ?P (take i (c_string buff) @ g # CHR 0x00 # drop (Suc (Suc i)) buff)"
    by (simp add: c_string_def pre_eq)
  also have "\<dots> = take i (c_string buff) @ [g]"
    using nz g by (simp add: takeWhile_append2)
  finally show ?thesis .
qed

text \<open>The body of the loop in terms of the gutter.\<close>

lemma hexDump_byte_eq:
  "hexDump_byte pc i (buff, out) =
     (buff[i mod 16 := gutter_char (pc i), Suc (i mod 16) := CHR 0x00],
      (if i mod 16 = 0 then
         (if i \<noteq> 0 then out @ ''  '' @ c_string buff @ [newline] else out) @ ''  '' @ fmt_04x i @ '' ''
       else out) @ '' '' @ fmt_02x (pc i))"
  by (simp add: hexDump_byte_def gutter_char_def Let_def)


lemma row_bytes_open:
  "16 * r \<le> n \<Longrightarrow> n \<le> 16 * r + 16 \<Longrightarrow> row_bytes pc n r = map pc [16 * r ..< n]"
  by (simp add: row_bytes_def min_def)

lemma row_bytes_full:
  "16 * r + 16 \<le> n \<Longrightarrow> row_bytes pc n r = map pc [16 * r ..< 16 * r + 16]"
  by (simp add: row_bytes_def min_def)

lemma dump_row_full:
  "16 * r + 16 \<le> n \<Longrightarrow> 16 * r + 16 \<le> m \<Longrightarrow> dump_row pc m r = dump_row pc n r"
  by (simp add: dump_row_def row_hex_def row_bytes_full)

lemma dump_rows_before:
  assumes "16 * r \<le> n" "16 * r \<le> m"
  shows "map (dump_row pc m) [0..<r] = map (dump_row pc n) [0..<r]"
proof (rule map_cong [OF refl])
  fix r' assume "r' \<in> set [0..<r]"
  then have "16 * r' + 16 \<le> 16 * r" by simp
  with assms show "dump_row pc m r' = dump_row pc n r'"
    by (intro dump_row_full) simp_all
qed

lemma pad_count_Suc:
  assumes "i mod 16 \<noteq> 0"
  shows "(16 - i mod 16) mod 16 = Suc ((16 - (i + 1) mod 16) mod 16)"
proof -
  define m where "m = i mod 16"
  have m: "m < 16" "m \<noteq> 0"
    using assms by (simp_all add: m_def)
  have "(i + 1) mod 16 = (if Suc m = 16 then 0 else Suc m)"
    by (simp add: mod_Suc m_def)
  moreover have "(16 - m) mod 16 = 16 - m"
    using m by simp
  moreover have "(16 - (if Suc m = 16 then 0 else Suc m)) mod 16 = 15 - m"
    using m by (cases "Suc m = 16") simp_all
  moreover have "16 - m = Suc (15 - m)"
    using m by linarith
  ultimately show ?thesis
    by (simp only: m_def [symmetric])
qed

lemma hexDump_pad_eq:
  "hexDump_pad i out = out @ concat (replicate ((16 - i mod 16) mod 16) ''   '')"
proof (induction i out rule: hexDump_pad.induct)
  case (1 i out)
  show ?case
  proof (cases "i mod 16 = 0")
    case True
    then show ?thesis by (simp add: hexDump_pad.simps)
  next
    case False
    have "hexDump_pad i out = hexDump_pad (i + 1) (out @ ''   '')"
      using False by (subst hexDump_pad.simps) simp
    also have "\<dots> = (out @ ''   '') @ concat (replicate ((16 - (i + 1) mod 16) mod 16) ''   '')"
      using False by (rule 1)
    also have "\<dots> = out @ concat (replicate (Suc ((16 - (i + 1) mod 16) mod 16)) ''   '')"
      by simp
    finally show ?thesis
      by (simp only: pad_count_Suc [OF False])
  qed
qed

lemma hexDump_loop_invariant:
  assumes "length buff0 = 17"
  shows "\<exists>buff. foldl (\<lambda>st i. hexDump_byte pc i st) (buff0, out0) [0..<Suc j] =
           (buff, out0 @ concat (map (dump_row pc (Suc j)) [0..<j div 16]) @ row_hex pc (Suc j) (j div 16)) \<and>
         length buff = 17 \<and>
         c_string buff = map gutter_char (row_bytes pc (Suc j) (j div 16))"
proof (induction j)
  case 0
  have "row_bytes pc (Suc 0) 0 = [pc 0]"
    by (simp add: row_bytes_def)
  moreover have "c_string (buff0[0 := gutter_char (pc 0), Suc 0 := CHR 0x00]) = [gutter_char (pc 0)]"
    using c_string_put [OF assms, of 0 "gutter_char (pc 0)"] by (simp add: gutter_char_not_NUL)
  ultimately show ?case
    using assms by (simp add: hexDump_byte_eq row_hex_def)
next
  case (Suc j)
  let ?i = "Suc j" and ?r = "j div 16"
  let ?g = "gutter_char (pc ?i)"
  from Suc obtain buff where
    run: "foldl (\<lambda>st i. hexDump_byte pc i st) (buff0, out0) [0..<?i] =
           (buff, out0 @ concat (map (dump_row pc ?i) [0..<?r]) @ row_hex pc ?i ?r)" and
    len: "length buff = 17" and
    gut: "c_string buff = map gutter_char (row_bytes pc ?i ?r)"
    by blast
  let ?buff' = "buff[?i mod 16 := ?g, Suc (?i mod 16) := CHR 0x00]"
  have j: "j = 16 * ?r + j mod 16" and m: "j mod 16 < 16"
    by simp_all
  have lo: "16 * ?r \<le> ?i"
    using j by linarith
  show ?case
  proof (cases "?i mod 16 = 0")
    case False
    then have m': "Suc (j mod 16) \<noteq> 16" and im: "?i mod 16 = Suc (j mod 16)"
      by (simp_all add: mod_Suc split: if_splits)
    from False have row: "?i div 16 = ?r"
      by (simp add: div_Suc)
    have hi: "Suc ?i \<le> 16 * ?r + 16"
      using j m m' by linarith
    have k: "?i - 16 * ?r = ?i mod 16"
      unfolding im using j by linarith
    have rb: "row_bytes pc ?i ?r = map pc [16 * ?r ..< ?i]"
      using lo hi by (intro row_bytes_open) simp_all
    have rb': "row_bytes pc (Suc ?i) ?r = row_bytes pc ?i ?r @ [pc ?i]"
      using lo hi by (simp add: row_bytes_open)
    have "c_string ?buff' = take (?i mod 16) (c_string buff) @ [?g]"
      using len gut rb k by (intro c_string_put) (simp_all add: gutter_char_not_NUL)
    then have gut': "c_string ?buff' = map gutter_char (row_bytes pc (Suc ?i) ?r)"
      using gut rb rb' k by simp
    have before: "map (dump_row pc (Suc ?i)) [0..<?r] = map (dump_row pc ?i) [0..<?r]"
      using lo by (intro dump_rows_before) simp_all
    have hex: "row_hex pc (Suc ?i) ?r = row_hex pc ?i ?r @ '' '' @ fmt_02x (pc ?i)"
      by (simp add: row_hex_def rb')
    have "foldl (\<lambda>st i. hexDump_byte pc i st) (buff0, out0) [0..<Suc ?i] =
          hexDump_byte pc ?i (buff, out0 @ concat (map (dump_row pc ?i) [0..<?r]) @ row_hex pc ?i ?r)"
      using run by simp
    also have "\<dots> = (?buff', (out0 @ concat (map (dump_row pc ?i) [0..<?r]) @ row_hex pc ?i ?r) @
                      '' '' @ fmt_02x (pc ?i))"
      using False by (simp add: hexDump_byte_eq)
    also have "\<dots> = (?buff', out0 @ concat (map (dump_row pc (Suc ?i)) [0..<?i div 16]) @
                      row_hex pc (Suc ?i) (?i div 16))"
      unfolding row before hex by simp
    finally show ?thesis
      using len gut' row by simp
  next
    case True
    then have m': "Suc (j mod 16) = 16"
      by (simp add: mod_Suc split: if_splits)
    from True have row: "?i div 16 = Suc ?r"
      by (simp add: div_Suc)
    have full: "16 * ?r + 16 = ?i"
      using j m' by linarith
    have rb_new: "row_bytes pc (Suc ?i) (Suc ?r) = [pc ?i]"
      using full by (simp add: row_bytes_def)
    have "c_string ?buff' = take (?i mod 16) (c_string buff) @ [?g]"
      using len True by (intro c_string_put) (simp_all add: gutter_char_not_NUL)
    then have gut': "c_string ?buff' = map gutter_char (row_bytes pc (Suc ?i) (Suc ?r))"
      using True rb_new by simp
    have "length (row_bytes pc ?i ?r) = 16"
      using full by (simp add: row_bytes_def)
    then have done_row: "dump_row pc ?i ?r = row_hex pc ?i ?r @ ''  '' @ c_string buff @ [newline]"
      by (simp add: dump_row_def gut)
    have before: "map (dump_row pc (Suc ?i)) [0..<Suc ?r] = map (dump_row pc ?i) [0..<?r] @ [dump_row pc ?i ?r]"
      using dump_rows_before [of "Suc ?r" ?i "Suc ?i" pc] full by simp
    have idx: "16 * Suc ?r = ?i"
      using full by simp
    have hex: "row_hex pc (Suc ?i) (Suc ?r) = ''  '' @ fmt_04x ?i @ '' '' @ '' '' @ fmt_02x (pc ?i)"
      unfolding row_hex_def rb_new idx by simp
    have "foldl (\<lambda>st i. hexDump_byte pc i st) (buff0, out0) [0..<Suc ?i] =
          hexDump_byte pc ?i (buff, out0 @ concat (map (dump_row pc ?i) [0..<?r]) @ row_hex pc ?i ?r)"
      using run by simp
    also have "\<dots> = (?buff', ((out0 @ concat (map (dump_row pc ?i) [0..<?r]) @ row_hex pc ?i ?r) @
                      ''  '' @ c_string buff @ [newline]) @ ''  '' @ fmt_04x ?i @ '' '' @ '' '' @ fmt_02x (pc ?i))"
      using True by (simp add: hexDump_byte_eq)
    also have "\<dots> = (?buff', out0 @ concat (map (dump_row pc (Suc ?i)) [0..<?i div 16]) @
                      row_hex pc (Suc ?i) (?i div 16))"
      unfolding row before hex done_row by simp
    finally show ?thesis
      using len gut' row by simp
  qed
qed

lemma length_row_bytes_last:
  assumes "j = 16 * r + m" "m < 16"
  shows "length (row_bytes pc (Suc j) r) = Suc m"
  using assms by (simp add: row_bytes_def min_def)

lemma pad_count_last:
  assumes "j = 16 * r + m" "m < 16"
  shows "(16 - Suc j mod 16) mod 16 = 16 - Suc m"
proof -
  have "j mod 16 = m" using assms by simp
  then have "Suc j mod 16 = (if Suc m = 16 then 0 else Suc m)"
    by (simp add: mod_Suc)
  then show ?thesis using assms(2) by (cases "Suc m = 16") simp_all
qed

lemma hexDump_positive:
  assumes pos: "0 < len" and buff0: "length buff0 = 17"
  shows "utils_hexDump desc pc len buff0 = label desc @ concat (dump_rows pc (nat len))"
proof -
  define j where "j = nat len - 1"
  define r where "r = j div 16"
  define m where "m = j mod 16"
  have n: "nat len = Suc j" using pos by (simp add: j_def)
  have j: "j = 16 * r + m" and m: "m < 16" by (simp_all add: r_def m_def)
  from hexDump_loop_invariant [OF buff0, of pc "label desc" j] obtain buff where
    run: "foldl (\<lambda>st i. hexDump_byte pc i st) (buff0, label desc) [0..<Suc j] =
           (buff, label desc @ concat (map (dump_row pc (Suc j)) [0..<r]) @ row_hex pc (Suc j) r)" and
    gut: "c_string buff = map gutter_char (row_bytes pc (Suc j) r)"
    unfolding r_def by blast
  have "(Suc j + 15) div 16 = Suc r"
    by (simp add: r_def)
  then have rows: "[0..<(Suc j + 15) div 16] = [0..<r] @ [r]"
    by (simp only: upt_Suc) simp
  have last: "dump_row pc (Suc j) r =
      row_hex pc (Suc j) r @ concat (replicate ((16 - Suc j mod 16) mod 16) ''   '') @
      ''  '' @ c_string buff @ [newline]"
    by (simp only: dump_row_def gut length_row_bytes_last [OF j m] pad_count_last [OF j m])
  have "utils_hexDump desc pc len buff0 =
      (label desc @ concat (map (dump_row pc (Suc j)) [0..<r]) @ row_hex pc (Suc j) r) @
      concat (replicate ((16 - Suc j mod 16) mod 16) ''   '') @ ''  '' @ c_string buff @ [newline]"
    using pos by (simp add: utils_hexDump_def label_def [symmetric] n run hexDump_pad_eq del: upt_Suc)
  also have "\<dots> = label desc @ concat (map (dump_row pc (Suc j)) [0..<r]) @ dump_row pc (Suc j) r"
    by (simp only: last append_assoc)
  also have "\<dots> = label desc @ concat (dump_rows pc (nat len))"
    unfolding dump_rows_def n rows by simp
  finally show ?thesis .
qed

lemma hexDump_zero:
  "utils_hexDump desc pc 0 buff0 = label desc @ ''  ZERO LENGTH'' @ [newline]"
  by (simp add: utils_hexDump_def label_def)

lemma hexDump_negative:
  "len < 0 \<Longrightarrow>
   utils_hexDump desc pc len buff0 = label desc @ ''  NEGATIVE LENGTH: '' @ fmt_i len @ [newline]"
  by (simp add: utils_hexDump_def label_def)

text \<open>The width of an offset label.\<close>

lemma length_hex_of_nat_le:
  "n < 16 ^ k \<Longrightarrow> 0 < k \<Longrightarrow> length (hex_of_nat n) \<le> k"
proof (induction n arbitrary: k rule: hex_of_nat.induct)
  case (1 n)
  show ?case
  proof (cases "n < 16")
    case True
    with 1(3) show ?thesis by (subst hex_of_nat.simps) simp
  next
    case False
    obtain k' where k: "k = Suc k'" using 1(3) by (cases k) auto
    from False 1(2) have "k' \<noteq> 0" by (cases k') (auto simp: k)
    moreover from 1(2) have "n div 16 < 16 ^ k'"
      by (simp add: k less_mult_imp_div_less mult.commute)
    ultimately have "length (hex_of_nat (n div 16)) \<le> k'"
      using 1(1) [OF False] by simp
    with False show ?thesis by (subst hex_of_nat.simps) (simp add: k)
  qed
qed

lemma length_hex_of_nat_gt:
  "16 ^ k \<le> n \<Longrightarrow> k < length (hex_of_nat n)"
proof (induction n arbitrary: k rule: hex_of_nat.induct)
  case (1 n)
  show ?case
  proof (cases "n < 16")
    case True
    have "k = 0"
    proof (cases k)
      case (Suc k')
      have "(1::nat) \<le> 16 ^ k'" by simp
      with 1(2) True Suc show ?thesis by simp
    qed simp
    then show ?thesis by (subst hex_of_nat.simps) simp
  next
    case False
    show ?thesis
    proof (cases k)
      case 0
      then show ?thesis by (subst hex_of_nat.simps) simp
    next
      case (Suc k')
      with 1(2) have "16 ^ k' \<le> n div 16"
        by (simp add: less_eq_div_iff_mult_less_eq mult.commute)
      from 1(1) [OF False this] False show ?thesis
        by (subst hex_of_nat.simps) (simp add: Suc)
    qed
  qed
qed

lemma length_hex_of_nat_pos: "0 < length (hex_of_nat n)"
  using length_hex_of_nat_gt [of 0 n] by (cases "n = 0") (simp_all add: hex_of_nat.simps)

lemma length_fmt_04x:
  "4 \<le> length (fmt_04x n)" "n < 65536 \<Longrightarrow> length (fmt_04x n) = 4"
  "65536 \<le> n \<Longrightarrow> 4 < length (fmt_04x n)"
proof -
  show "4 \<le> length (fmt_04x n)"
    by (simp add: fmt_04x_def zero_padded_def)
  show "length (fmt_04x n) = 4" if "n < 65536"
    using length_hex_of_nat_le [of n 4] that by (simp add: fmt_04x_def zero_padded_def)
  show "4 < length (fmt_04x n)" if "65536 \<le> n"
    using length_hex_of_nat_gt [of 4 n] that by (simp add: fmt_04x_def zero_padded_def)
qed

lemma length_takeWhile_neq_nth:
  assumes "distinct xs" and "d < length xs"
  shows "length (takeWhile (\<lambda>c. c \<noteq> xs ! d) xs) = d"
proof -
  have "takeWhile (\<lambda>c. c \<noteq> xs ! d) xs = take d xs"
  proof (rule takeWhile_eq_take_P_nth)
    fix i assume "i < d" "i < length xs"
    with assms show "xs ! i \<noteq> xs ! d"
      by (simp add: nth_eq_iff_index_eq)
  qed simp
  with assms(2) show ?thesis by simp
qed

lemma hex_digit_value_hex_digit:
  assumes "d < 16"
  shows "hex_digit_value (hex_digit d) = d"
proof -
  have "distinct ''0123456789abcdef''"
    by simp
  moreover from assms have "d < length ''0123456789abcdef''"
    by simp
  ultimately have "length (takeWhile (\<lambda>c. c \<noteq> ''0123456789abcdef'' ! d) ''0123456789abcdef'') = d"
    by (rule length_takeWhile_neq_nth)
  then show ?thesis
    by (simp only: hex_digit_value_def hex_digit_def)
qed

lemma hex_value_snoc: "hex_value (str @ [c]) = 16 * hex_value str + hex_digit_value c"
  by (simp add: hex_value_def)

lemma hex_value_hex_of_nat: "hex_value (hex_of_nat n) = n"
proof (induction n rule: hex_of_nat.induct)
  case (1 n)
  show ?case
  proof (cases "n < 16")
    case True
    then show ?thesis
      by (subst hex_of_nat.simps) (simp add: hex_value_def hex_digit_value_hex_digit)
  next
    case False
    have "hex_value (hex_of_nat n) = 16 * hex_value (hex_of_nat (n div 16)) + hex_digit_value (hex_digit (n mod 16))"
      using False by (subst hex_of_nat.simps) (simp add: hex_value_snoc)
    also have "\<dots> = 16 * (n div 16) + n mod 16"
      using 1 [OF False] by (simp add: hex_digit_value_hex_digit)
    finally show ?thesis by simp
  qed
qed

lemma hex_digit_value_zero: "hex_digit_value CHR ''0'' = 0"
  by (simp add: hex_digit_value_def)

lemma hex_value_leading_zeros: "hex_value (replicate k CHR ''0'' @ str) = hex_value str"
proof -
  have "foldl (\<lambda>v c. 16 * v + hex_digit_value c) 0 (replicate k CHR ''0'') = 0"
    by (induction k) (simp_all add: hex_digit_value_zero)
  then show ?thesis by (simp add: hex_value_def)
qed

lemma hex_value_fmt_04x: "hex_value (fmt_04x n) = n"
  by (simp add: fmt_04x_def zero_padded_def hex_value_leading_zeros hex_value_hex_of_nat)

lemma length_fmt_02x: "length (fmt_02x b) = 2"
proof -
  have "unat b < 16 ^ 2"
    using unsigned_less [of b, where ?'a = nat] by simp
  from length_hex_of_nat_le [OF this] length_hex_of_nat_pos [of "unat b"]
  show ?thesis by (simp add: fmt_02x_def zero_padded_def)
qed

lemma length_hex_bytes: "length (concat (map (\<lambda>b. CHR '' '' # fmt_02x b) bs)) = 3 * length bs"
  by (induction bs) (simp_all add: length_fmt_02x)

lemma length_row_hex:
  "length (row_hex pc n r) = 3 + length (fmt_04x (16 * r)) + 3 * length (row_bytes pc n r)"
  by (simp add: row_hex_def length_hex_bytes)

lemma length_dump_row_full:
  assumes "16 * r + 16 \<le> n" and "16 * r < 65536"
  shows "length (dump_row pc n r) = 74"
proof -
  have "length (row_bytes pc n r) = 16"
    using assms(1) by (simp add: row_bytes_full)
  then show ?thesis
    using length_fmt_04x(2) [OF assms(2)] by (simp add: dump_row_def length_row_hex)
qed

lemma length_concat_rows:
  "(\<And>x. x \<in> set xs \<Longrightarrow> length (f x) = c) \<Longrightarrow> length (concat (map f xs)) = c * length xs"
  by (induction xs) simp_all

lemma replicate_numeral: "replicate (numeral k) x = x # replicate (pred_numeral k) x"
  by (simp add: numeral_eq_Suc)

lemma last_row_65537:
  "dump_row zero_page 65537 4096 = ''  10000  00'' @ replicate 45 CHR '' '' @ ''  .'' @ [newline]"
proof -
  have bytes: "row_bytes zero_page 65537 4096 = [0]"
    by (simp add: row_bytes_def zero_page_def)
  have off: "fmt_04x (16 * 4096) = ''10000''"
    by (simp add: fmt_04x_def zero_padded_def hex_of_nat.simps hex_digit_def)
  have byte: "fmt_02x 0 = ''00''"
    by (simp add: fmt_02x_def zero_padded_def hex_of_nat.simps hex_digit_def)
  have dot: "gutter_char 0 = CHR ''.''"
    by (simp add: gutter_char_def)
  show ?thesis
    unfolding dump_row_def row_hex_def bytes off
    by (simp add: byte dot replicate_numeral)
qed

text \<open>
  C7, as the code has it. With length zero the dump is the zero-length notice and no
  row; with a negative length it is the negative-length notice, whatever the memory
  behind the pointer holds (it is not read); with a positive length it is the rows of
  \<open>dump_rows\<close>, sixteen bytes to a row with the gutter at the end. The label of a row
  is the offset of its first byte, written by \<^verbatim>\<open>%04x\<close>: at least four hexadecimal
  digits, and exactly four while the offset is below \<open>0x10000\<close>.
\<close>

theorem utils_hexDump_layout:
  "utils_hexDump desc pc 0 buff0 = label desc @ ''  ZERO LENGTH'' @ [newline] \<and>
   (len < 0 \<longrightarrow>
      utils_hexDump desc pc len buff0 = label desc @ ''  NEGATIVE LENGTH: '' @ fmt_i len @ [newline] \<and>
      utils_hexDump desc pc' len buff0 = utils_hexDump desc pc len buff0) \<and>
   (0 < len \<and> length buff0 = 17 \<longrightarrow>
      utils_hexDump desc pc len buff0 = label desc @ concat (dump_rows pc (nat len))) \<and>
   hex_value (fmt_04x (16 * r)) = 16 * r \<and> 4 \<le> length (fmt_04x (16 * r)) \<and>
   (16 * r < 65536 \<longrightarrow> length (fmt_04x (16 * r)) = 4)"
  by (simp add: hexDump_zero hexDump_negative hexDump_positive hex_value_fmt_04x length_fmt_04x)

theorem utils_hexDump_layout_witness:
  "(0::int) < 20 \<and> length (replicate 17 CHR ''x'') = 17 \<and>
   utils_hexDump (Ptr ''hdr'')
     ((!) [0x41, 0x42, 0, 1, 2, 3, 4, 5, 6, 7, 8, 9, 10, 11, 12, 13, 0x7e, 0x7f, 0x20, 0xff])
     20 (replicate 17 CHR ''x'') =
     ''hdr:'' @ [newline] @
     ''  0000  41 42 00 01 02 03 04 05 06 07 08 09 0a 0b 0c 0d  AB..............'' @ [newline] @
     ''  0010  7e 7f 20 ff'' @ replicate 36 CHR '' '' @ ''  ~. .'' @ [newline] \<and>
   (- 5::int) < 0 \<and>
   utils_hexDump NULL ((!) []) (- 5) (replicate 17 CHR ''x'') = ''  NEGATIVE LENGTH: -5'' @ [newline] \<and>
   (16::nat) * 1 < 65536 \<and> fmt_04x (16 * 1) = ''0010''"
proof -
  let ?pc = "(!) [0x41, 0x42, 0, 1, 2, 3, 4, 5, 6, 7, 8, 9, 10, 11, 12, 13, 0x7e, 0x7f, 0x20, 0xff :: u1]"
  let ?buff = "replicate 17 CHR ''x''"
  note layout = utils_hexDump_layout [of "Ptr ''hdr''" ?pc ?buff 20 ?pc 1]
  note notice = utils_hexDump_layout [of NULL "(!) []" ?buff "- 5" "(!) []" 1]
  have pos: "(0::int) < 20 \<and> length ?buff = 17"
    by simp
  have rows: "label (Ptr ''hdr'') @ concat (dump_rows ?pc (nat 20)) =
     ''hdr:'' @ [newline] @
     ''  0000  41 42 00 01 02 03 04 05 06 07 08 09 0a 0b 0c 0d  AB..............'' @ [newline] @
     ''  0010  7e 7f 20 ff'' @ replicate 36 CHR '' '' @ ''  ~. .'' @ [newline]"
    by code_simp
  have neg: "label NULL @ ''  NEGATIVE LENGTH: '' @ fmt_i (- 5) @ [newline] =
     ''  NEGATIVE LENGTH: -5'' @ [newline]"
    by code_simp
  have off: "fmt_04x (16 * 1) = ''0010''"
    by code_simp
  from layout [THEN conjunct2, THEN conjunct2, THEN conjunct1, rule_format, OF pos]
  have one: "utils_hexDump (Ptr ''hdr'') ?pc 20 ?buff =
     ''hdr:'' @ [newline] @
     ''  0000  41 42 00 01 02 03 04 05 06 07 08 09 0a 0b 0c 0d  AB..............'' @ [newline] @
     ''  0010  7e 7f 20 ff'' @ replicate 36 CHR '' '' @ ''  ~. .'' @ [newline]"
    by (simp only: rows)
  have lt: "(- 5::int) < 0" by simp
  from notice [THEN conjunct2, THEN conjunct1, rule_format, OF lt, THEN conjunct1]
  have two: "utils_hexDump NULL ((!) []) (- 5) ?buff = ''  NEGATIVE LENGTH: -5'' @ [newline]"
    by (simp only: neg)
  have three: "(16::nat) * 1 < 65536" by simp
  from pos one lt two three off show ?thesis
    by (simp only: simp_thms)
qed

text \<open>
  The claim C7 as it is written (every row begins with the offset in four hexadecimal
  digits) fails on a dump of 65537 bytes: after 4096 rows of 74 characters, the last
  row begins with the five digits of the offset \<open>0x10000\<close>.
\<close>

theorem utils_hexDump_offset_counterexample:
  "drop 303104 (utils_hexDump NULL zero_page 65537 (replicate 17 CHR ''x'')) =
   ''  10000  00'' @ replicate 45 CHR '' '' @ ''  .'' @ [newline]"
proof -
  let ?row = "dump_row zero_page 65537"
  have "utils_hexDump NULL zero_page 65537 (replicate 17 CHR ''x'') =
      label NULL @ concat (dump_rows zero_page (nat 65537))"
    by (rule hexDump_positive) simp_all
  also have "label NULL = []"
    by (simp add: label_def)
  also have "nat 65537 = 65537"
    by simp
  also have "dump_rows zero_page 65537 = map ?row [0..<Suc 4096]"
    by (simp add: dump_rows_def)
  also have "concat (map ?row [0..<Suc 4096]) = concat (map ?row [0..<4096]) @ ?row 4096"
    by (simp only: upt_Suc_append zero_le map_append concat_append) simp
  finally have out: "utils_hexDump NULL zero_page 65537 (replicate 17 CHR ''x'') =
      concat (map ?row [0..<4096]) @ ?row 4096"
    by simp
  have "length (concat (map ?row [0..<4096])) = 74 * length [0..<4096::nat]"
  proof (rule length_concat_rows)
    fix r :: nat assume "r \<in> set [0..<4096]"
    then have "r < 4096" by simp
    then show "length (?row r) = 74"
      by (intro length_dump_row_full) simp_all
  qed
  then have len: "length (concat (map ?row [0..<4096])) = 303104"
    by simp
  have last: "?row 4096 = ''  10000  00'' @ replicate 45 CHR '' '' @ ''  .'' @ [newline]"
    by (rule last_row_65537)
  show ?thesis
    unfolding out last [symmetric] using len by simp
qed

end
